theory Spec2Isabelle
  imports Complex_Main "HOL-Library.Word"
begin

section \<open>Values of the program\<close>

text \<open>
  The source is \<^verbatim>\<open>src/m-core.js\<close>. Its numbers are JavaScript numbers, that is
  binary64 numbers: a finite number, held here as the real number it denotes, the two
  infinities, and \<open>NaN\<close>. The two zeros are one value: the code never divides by a zero
  and never inspects the sign of one, and \<open>-0\<close> and \<open>0\<close> compare equal.

  Every arithmetic operation returns the exact result rounded to binary64 (round to
  nearest, ties to even), an infinity where the rounded result is out of range.
\<close>

datatype jsnum = Num real | PInf | NInf | NaN

type_synonym point = "jsnum list"

text \<open>An array slot that may hold \<^verbatim>\<open>undefined\<close> is an option; \<open>None\<close> is \<^verbatim>\<open>undefined\<close>.\<close>

type_synonym palette = "point option list"

datatype js_error = TypeError | RangeError | ReferenceError

text \<open>
  Rounding to the nearest integer, a tie to the even one.
\<close>

definition round_half_even :: "real \<Rightarrow> int" where
  "round_half_even y =
     (let f = \<lfloor>y\<rfloor> in
        if y - of_int f < 1 / 2 then f
        else if 1 / 2 < y - of_int f then f + 1
        else if even f then f else f + 1)"

text \<open>
  The binary64 number nearest to a real number (IEEE 754 round to nearest, ties to
  even): the number is scaled by a power of two so that it lies between \<open>2 ^ 52\<close> and
  \<open>2 ^ 53\<close>, rounded to an integer, and scaled back. The exponent is not bounded, so the
  function is the rounding of binary64 for results within its normal range (no
  overflow, no subnormal result); division, multiplication and \<^verbatim>\<open>Math.sqrt\<close> return
  the exact result rounded in this way.
\<close>

definition binary64 :: "real \<Rightarrow> real" where
  "binary64 x =
     (if x = 0 then 0
      else let e = \<lfloor>log 2 \<bar>x\<bar>\<rfloor> - 52
           in of_int (round_half_even (x / 2 powr of_int e)) * 2 powr of_int e)"

text \<open>
  The rounding over the whole range of binary64. Below \<open>2 ^ -1022\<close> the numbers are
  the multiples of \<open>2 ^ -1074\<close> (the subnormal numbers); a result that rounds to
  \<open>2 ^ 1024\<close> or more in magnitude is an infinity.
\<close>

definition round64 :: "real \<Rightarrow> jsnum" where
  "round64 x =
     (let r = (if \<bar>x\<bar> < 1 / 2 ^ 1022
               then of_int (round_half_even (x * 2 ^ 1074)) / 2 ^ 1074
               else binary64 x)
      in if 2 ^ 1024 \<le> r then PInf else if r \<le> - (2 ^ 1024) then NInf else Num r)"

text \<open>\<^verbatim>\<open>a - b\<close>. The difference of two equal infinities is \<open>NaN\<close>.\<close>

fun js_sub :: "jsnum \<Rightarrow> jsnum \<Rightarrow> jsnum" where
  "js_sub (Num a) (Num b) = round64 (a - b)"
| "js_sub NaN _ = NaN"
| "js_sub _ NaN = NaN"
| "js_sub PInf PInf = NaN"
| "js_sub NInf NInf = NaN"
| "js_sub PInf _ = PInf"
| "js_sub NInf _ = NInf"
| "js_sub (Num a) PInf = NInf"
| "js_sub (Num a) NInf = PInf"

text \<open>\<^verbatim>\<open>a + b\<close>. The sum of two opposite infinities is \<open>NaN\<close>.\<close>

fun js_add :: "jsnum \<Rightarrow> jsnum \<Rightarrow> jsnum" where
  "js_add (Num a) (Num b) = round64 (a + b)"
| "js_add NaN _ = NaN"
| "js_add _ NaN = NaN"
| "js_add PInf NInf = NaN"
| "js_add NInf PInf = NaN"
| "js_add PInf _ = PInf"
| "js_add NInf _ = NInf"
| "js_add (Num a) PInf = PInf"
| "js_add (Num a) NInf = NInf"

text \<open>\<^verbatim>\<open>Math.pow(x, 2)\<close>, taken to be the square, rounded.\<close>

fun js_pow2 :: "jsnum \<Rightarrow> jsnum" where
  "js_pow2 (Num a) = round64 (a * a)"
| "js_pow2 PInf = PInf"
| "js_pow2 NInf = PInf"
| "js_pow2 NaN = NaN"

text \<open>
  Division by a loop counter plus one, which is a positive integer (below \<open>2 ^ 32\<close>
  for the index of an array, so that it is a binary64 number).
\<close>

fun js_div :: "jsnum \<Rightarrow> nat \<Rightarrow> jsnum" where
  "js_div (Num a) n = round64 (a / of_nat n)"
| "js_div PInf n = PInf"
| "js_div NInf n = NInf"
| "js_div NaN n = NaN"

text \<open>\<^verbatim>\<open>a !== b\<close> on numbers: \<open>NaN\<close> differs from everything, itself included.\<close>

fun js_strict_neq :: "jsnum \<Rightarrow> jsnum \<Rightarrow> bool" where
  "js_strict_neq (Num a) (Num b) = (a \<noteq> b)"
| "js_strict_neq PInf PInf = False"
| "js_strict_neq NInf NInf = False"
| "js_strict_neq _ _ = True"

text \<open>\<^verbatim>\<open>a < b\<close> on numbers. A comparison with \<open>NaN\<close> is false.\<close>

fun js_less :: "jsnum \<Rightarrow> jsnum \<Rightarrow> bool" where
  "js_less (Num a) (Num b) = (a < b)"
| "js_less (Num a) PInf = True"
| "js_less NInf (Num b) = True"
| "js_less NInf PInf = True"
| "js_less _ _ = False"

text \<open>\<^verbatim>\<open>xs[i]\<close>: \<^verbatim>\<open>undefined\<close> outside the array.\<close>

definition js_get :: "'a list \<Rightarrow> int \<Rightarrow> 'a option" where
  "js_get xs i = (if 0 \<le> i \<and> i < int (length xs) then Some (xs ! nat i) else None)"

section \<open>isArrayEqual\<close>

fun elems_equal :: "point \<Rightarrow> point \<Rightarrow> bool" where
  "elems_equal (a # as) (b # bs) = (if js_strict_neq a b then False else elems_equal as bs)"
| "elems_equal _ _ = True"

text \<open>
  Reading \<^verbatim>\<open>.length\<close> of \<^verbatim>\<open>undefined\<close> throws a TypeError; \<^verbatim>\<open>arr1.length\<close> is read
  first.
\<close>

fun isArrayEqual :: "point option \<Rightarrow> point option \<Rightarrow> js_error + bool" where
  "isArrayEqual None _ = Inl TypeError"
| "isArrayEqual (Some arr1) None = Inl TypeError"
| "isArrayEqual (Some arr1) (Some arr2) =
     (if length arr1 \<noteq> length arr2 then Inr False else Inr (elems_equal arr1 arr2))"

section \<open>rescaleDimensions\<close>

text \<open>
  \<^verbatim>\<open>rescaleDimensions(w, h, pixels)\<close>, on finite numbers. The result is \<open>None\<close> where
  a component of the array that the code returns is not a finite number: \<open>h = 0\<close> (a
  division by zero), an aspect ratio of 0, or a negative argument of the square root.
  The intermediate results are rounded by \<open>binary64\<close>, which is the rounding of the
  code as long as they stay in the normal range.
\<close>

definition rescaleDimensions :: "real \<Rightarrow> real \<Rightarrow> real \<Rightarrow> (int \<times> int) option" where
  "rescaleDimensions w h pixels =
     (if h = 0 then None
      else let aspectRatio = binary64 (w / h) in
        if aspectRatio = 0 \<or> pixels / aspectRatio < 0 then None
        else let scalingFactor = binary64 (sqrt (binary64 (pixels / aspectRatio)));
                 rescaledW = \<lfloor>binary64 (aspectRatio * scalingFactor)\<rfloor>;
                 rescaledH = \<lfloor>scalingFactor\<rfloor>
             in Some (rescaledW, rescaledH))"

section \<open>nearestNeighbor\<close>

text \<open>
  The inner loop over \<^verbatim>\<open>j < point.length\<close>; \<open>d\<close> is the variable \<^verbatim>\<open>dist\<close>.
  Where the neighbor is shorter than the point, \<^verbatim>\<open>neighbor[j]\<close> is \<^verbatim>\<open>undefined\<close>
  and the difference is \<open>NaN\<close>.
\<close>

fun dist_loop :: "jsnum \<Rightarrow> point \<Rightarrow> point \<Rightarrow> jsnum" where
  "dist_loop d [] nb = d"
| "dist_loop d (p # ps) [] = dist_loop (js_add d (js_pow2 (js_sub p NaN))) ps []"
| "dist_loop d (p # ps) (n # ns) = dist_loop (js_add d (js_pow2 (js_sub p n))) ps ns"

text \<open>
  One neighbor. An \<^verbatim>\<open>undefined\<close> neighbor throws at \<^verbatim>\<open>neighbor[j]\<close>, which is
  evaluated only when the point has a channel.
\<close>

fun neighbor_dist :: "point \<Rightarrow> point option \<Rightarrow> js_error + jsnum" where
  "neighbor_dist point (Some neighbor) = Inr (dist_loop (Num 0) point neighbor)"
| "neighbor_dist point None = (if point = [] then Inr (Num 0) else Inl TypeError)"

text \<open>The scan over the neighbors, from index \<open>i\<close>, with the best distance and index so far.\<close>

fun nn_loop :: "point \<Rightarrow> palette \<Rightarrow> int \<Rightarrow> jsnum \<Rightarrow> int \<Rightarrow> js_error + int" where
  "nn_loop point [] i best_dist best_index = Inr best_index"
| "nn_loop point (neighbor # rest) i best_dist best_index =
     (case neighbor_dist point neighbor of
        Inl e \<Rightarrow> Inl e
      | Inr d \<Rightarrow>
          if js_less d best_dist
          then nn_loop point rest (i + 1) d i
          else nn_loop point rest (i + 1) best_dist best_index)"

text \<open>\<^verbatim>\<open>best_dist\<close> starts at \<^verbatim>\<open>Infinity\<close> and \<^verbatim>\<open>best_index\<close> at \<open>-1\<close>.\<close>

definition nearestNeighbor :: "point \<Rightarrow> palette \<Rightarrow> js_error + int" where
  "nearestNeighbor point neighbors = nn_loop point neighbors 0 PInf (- 1)"

section \<open>centroid\<close>

text \<open>
  The inner loop \<^verbatim>\<open>runningCentroid[j] += (point[j] - runningCentroid[j]) / (i + 1)\<close>
  for one point; \<open>n\<close> is \<open>i + 1\<close>. Past the end of \<^verbatim>\<open>runningCentroid\<close> the read is
  \<^verbatim>\<open>undefined\<close>, the sum is \<open>NaN\<close>, and the assignment extends the array.
\<close>

fun running_update :: "point \<Rightarrow> point \<Rightarrow> nat \<Rightarrow> point" where
  "running_update rc [] n = rc"
| "running_update [] (p # ps) n = NaN # running_update [] ps n"
| "running_update (r # rs) (p # ps) n =
     js_add r (js_div (js_sub p r) n) # running_update rs ps n"

fun centroid_loop :: "point \<Rightarrow> point list \<Rightarrow> nat \<Rightarrow> point" where
  "centroid_loop rc [] i = rc"
| "centroid_loop rc (p # ps) i = centroid_loop (running_update rc p (i + 1)) ps (i + 1)"

definition centroid :: "point list \<Rightarrow> point" where
  "centroid dataset =
     (case dataset of
        [] \<Rightarrow> []
      | d0 # _ \<Rightarrow> centroid_loop (replicate (length d0) (Num 0)) dataset 0)"

section \<open>createSeededRandom\<close>

text \<open>
  The closure's state is the variable \<^verbatim>\<open>seed\<close>. A call replaces it by
  \<open>random_step seed\<close> and returns \<open>random_value\<close> of the new seed. The seed is an
  integer below 233280, and the integer arithmetic is exact; the quotient is rounded.
\<close>

definition random_step :: "nat \<Rightarrow> nat" where
  "random_step seed = (seed * 9301 + 49297) mod 233280"

definition random_value :: "nat \<Rightarrow> real" where
  "random_value seed = binary64 (real seed / 233280)"

text \<open>
  \<^verbatim>\<open>dataset[Math.floor(random() * dataset.length)]\<close>, with the generator's new state.
  The quotient and the product are 0 or lie between \<open>2 ^ -18\<close> and the length of an
  array, in the normal range.
\<close>

definition draw_point :: "point list \<Rightarrow> nat \<Rightarrow> point option \<times> nat" where
  "draw_point dataset seed =
     (let seed' = random_step seed;
          idx = \<lfloor>binary64 (random_value seed' * real (length dataset))\<rfloor>
      in (js_get dataset idx, seed'))"

section \<open>kMeans\<close>

text \<open>The loop that chooses the initial centroids; the first argument counts the rounds left.\<close>

fun init_centroids :: "nat \<Rightarrow> point list \<Rightarrow> nat \<Rightarrow> palette \<times> nat" where
  "init_centroids 0 dataset seed = ([], seed)"
| "init_centroids (Suc n) dataset seed =
     (let (c, seed1) = draw_point dataset seed;
          (cs, seed2) = init_centroids n dataset seed1
      in (c # cs, seed2))"

text \<open>
  The assignment loop over the dataset. \<^verbatim>\<open>clusters[nearest_centroid]\<close> is
  \<^verbatim>\<open>undefined\<close> for an index outside the array, and \<^verbatim>\<open>push\<close> on it throws.
\<close>

fun assign_points :: "point list \<Rightarrow> palette \<Rightarrow> point list list \<Rightarrow> js_error + point list list" where
  "assign_points [] centroids clusters = Inr clusters"
| "assign_points (p # ps) centroids clusters =
     (case nearestNeighbor p centroids of
        Inl e \<Rightarrow> Inl e
      | Inr nearest_centroid \<Rightarrow>
          (case js_get clusters nearest_centroid of
             None \<Rightarrow> Inl TypeError
           | Some cluster \<Rightarrow>
               assign_points ps centroids
                 (clusters[nat nearest_centroid := cluster @ [p]])))"

text \<open>
  The update loop over \<open>i < k\<close>, here over the clusters and the old centroids from index
  \<open>i\<close> on (both arrays have \<open>k\<close> entries). It returns the new centroids from \<open>i\<close> on, the
  flag \<^verbatim>\<open>converged\<close> and the generator's state. \<^verbatim>\<open>converged && isArrayEqual(...)\<close> does
  not call \<^verbatim>\<open>isArrayEqual\<close> once \<^verbatim>\<open>converged\<close> is false.
\<close>

fun update_loop ::
  "point list \<Rightarrow> point list list \<Rightarrow> palette \<Rightarrow> bool \<Rightarrow> nat \<Rightarrow> js_error + (palette \<times> bool \<times> nat)"
where
  "update_loop dataset (cluster # clusters) (old # olds) converged seed =
     (let (centroid_i, seed1) =
            (if cluster \<noteq> [] then (Some (centroid cluster), seed) else draw_point dataset seed)
      in case (if converged then isArrayEqual centroid_i old else Inr False) of
           Inl e \<Rightarrow> Inl e
         | Inr converged1 \<Rightarrow>
             (case update_loop dataset clusters olds converged1 seed1 of
                Inl e \<Rightarrow> Inl e
              | Inr (cs, converged2, seed2) \<Rightarrow> Inr (centroid_i # cs, converged2, seed2)))"
| "update_loop dataset _ _ converged seed = Inr ([], converged, seed)"

text \<open>
  One round of the \<^verbatim>\<open>while (true)\<close> loop. \<^verbatim>\<open>Array(k)\<close> throws a RangeError for a
  negative length.
\<close>

definition kMeans_round ::
  "point list \<Rightarrow> int \<Rightarrow> palette \<Rightarrow> nat \<Rightarrow> js_error + (palette \<times> bool \<times> nat)"
where
  "kMeans_round dataset k centroids seed =
     (if k < 0 then Inl RangeError
      else case assign_points dataset centroids (replicate (nat k) []) of
             Inl e \<Rightarrow> Inl e
           | Inr clusters \<Rightarrow> update_loop dataset clusters centroids True seed)"

text \<open>
  The \<^verbatim>\<open>while (true)\<close> loop: it ends at \<^verbatim>\<open>break\<close>, when a round leaves
  \<^verbatim>\<open>converged\<close> true, or at an exception. The value \<open>None\<close> is a run that never ends.
\<close>

partial_function (option) kMeans_while ::
  "point list \<Rightarrow> int \<Rightarrow> palette \<Rightarrow> nat \<Rightarrow> (js_error + palette) option"
where
  "kMeans_while dataset k centroids seed =
     (case kMeans_round dataset k centroids seed of
        Inl e \<Rightarrow> Some (Inl e)
      | Inr (centroids', converged, seed') \<Rightarrow>
          if converged then Some (Inr centroids')
          else kMeans_while dataset k centroids' seed')"

text \<open>
  \<^verbatim>\<open>kMeans(dataset, k)\<close>; \<open>None\<close> for \<open>k\<close> is the argument left out. The generator is
  created in the call, with seed 0.
\<close>

definition kMeans :: "point list \<Rightarrow> int option \<Rightarrow> (js_error + palette) option" where
  "kMeans dataset k_arg =
     (let k = (case k_arg of None \<Rightarrow> min 3 (int (length dataset)) | Some k \<Rightarrow> k);
          (centroids, seed) = init_centroids (nat k) dataset 0
      in kMeans_while dataset k centroids seed)"

section \<open>The generators of the program\<close>










section \<open>quantize\<close>

text \<open>
  The image as \<^verbatim>\<open>quantize\<close> sees it: its width and height, and the samples that
  \<^verbatim>\<open>getImageData(0, 0, width, height).data\<close> returns after the image is drawn on the
  canvas, a \<^verbatim>\<open>Uint8ClampedArray\<close>. A canvas returns four samples for each pixel.
\<close>

record image =
  width :: nat
  height :: nat
  data :: "8 word list"

definition canvas_image :: "image \<Rightarrow> bool" where
  "canvas_image img = (length (data img) = 4 * (width img * height img))"

text \<open>
  A store into a \<^verbatim>\<open>Uint8ClampedArray\<close>: \<open>NaN\<close> becomes 0, the value is clamped to
  0..255 and rounded to the nearest integer, a tie to the even one.
\<close>

definition to_uint8_clamped :: "jsnum \<Rightarrow> 8 word" where
  "to_uint8_clamped v =
     (case v of
        NaN \<Rightarrow> 0
      | NInf \<Rightarrow> 0
      | PInf \<Rightarrow> 255
      | Num x \<Rightarrow>
          if x \<le> 0 then 0
          else if 255 \<le> x then 255
          else word_of_int (round_half_even x))"

text \<open>A sample read from a \<^verbatim>\<open>Uint8ClampedArray\<close>, as a number.\<close>

definition of_uint8 :: "8 word \<Rightarrow> jsnum" where
  "of_uint8 b = Num (real (unat b))"

text \<open>
  The loop \<^verbatim>\<open>current_pixel[j] = flattened_source_data[i + j]\<close> over
  \<open>j < n_channels\<close>. A read past the end is \<^verbatim>\<open>undefined\<close>, stored as 0.
\<close>

definition read_pixel :: "8 word list \<Rightarrow> nat \<Rightarrow> nat \<Rightarrow> point" where
  "read_pixel src i n_channels =
     map (\<lambda>j. of_uint8 (if i + j < length src then src ! (i + j) else 0)) [0..<n_channels]"

text \<open>
  The loop \<^verbatim>\<open>flattened_quantized_data[i+j] = nearest_color[j]\<close> over
  \<open>j < nearest_color.length\<close>, here from position \<open>i\<close> on. A store past the end of a
  typed array does nothing.
\<close>

fun write_color :: "8 word list \<Rightarrow> nat \<Rightarrow> point \<Rightarrow> 8 word list" where
  "write_color out i [] = out"
| "write_color out i (c # cs) =
     write_color (if i < length out then out[i := to_uint8_clamped c] else out) (i + 1) cs"

text \<open>
  The loop over the pixels; the fifth argument lists the values that \<open>i\<close> still takes.
  The name \<^verbatim>\<open>centroids\<close> is neither a parameter nor a local variable of
  \<^verbatim>\<open>quantize\<close>: it is looked up in the enclosing (global) scope, which is the first
  argument here, \<open>None\<close> when no such binding exists (a ReferenceError). Reading
  \<^verbatim>\<open>.length\<close> of an \<^verbatim>\<open>undefined\<close> \<^verbatim>\<open>nearest_color\<close> throws a TypeError.
\<close>

fun quantize_loop ::
  "palette option \<Rightarrow> palette \<Rightarrow> 8 word list \<Rightarrow> nat \<Rightarrow> nat list \<Rightarrow> 8 word list
   \<Rightarrow> js_error + 8 word list"
where
  "quantize_loop global_centroids colors src n_channels [] out = Inr out"
| "quantize_loop global_centroids colors src n_channels (i # rest) out =
     (case nearestNeighbor (read_pixel src i n_channels) colors of
        Inl e \<Rightarrow> Inl e
      | Inr nearest_color_index \<Rightarrow>
          (case global_centroids of
             None \<Rightarrow> Inl ReferenceError
           | Some centroids \<Rightarrow>
               (case js_get centroids nearest_color_index of
                  None \<Rightarrow> Inl TypeError
                | Some None \<Rightarrow> Inl TypeError
                | Some (Some nearest_color) \<Rightarrow>
                    quantize_loop global_centroids colors src n_channels rest
                      (write_color out i nearest_color))))"

text \<open>
  The values of \<open>i\<close> in \<^verbatim>\<open>for (i = 0; i < length; i += n_channels)\<close>. With no
  channel the array of a canvas is empty and the loop does not run.
\<close>

definition pixel_offsets :: "nat \<Rightarrow> nat \<Rightarrow> nat list" where
  "pixel_offsets len n_channels =
     (if n_channels = 0 then []
      else map (\<lambda>p. p * n_channels) [0..<(len + n_channels - 1) div n_channels])"

text \<open>
  \<^verbatim>\<open>quantize(img, colors)\<close>, up to the array \<^verbatim>\<open>flattened_quantized_data\<close> that is put
  on the second canvas; the encoding as a data URL is left to the canvas. For the image
  of a canvas the division \<^verbatim>\<open>length / n_pixels\<close> is exact.
\<close>

definition quantize :: "palette option \<Rightarrow> image \<Rightarrow> palette \<Rightarrow> js_error + 8 word list" where
  "quantize global_centroids img colors =
     (let flattened_source_data = data img;
          n_pixels = width img * height img;
          n_channels = length flattened_source_data div n_pixels;
          flattened_quantized_data = replicate (length flattened_source_data) 0
      in quantize_loop global_centroids colors flattened_source_data n_channels
           (pixel_offsets (length flattened_source_data) n_channels)
           flattened_quantized_data)"

text \<open>
  \<^verbatim>\<open>quantize(quantize(img, colors), colors)\<close>: the second call reads the raster the first
  one wrote, in an image of the same size.
\<close>

definition quantize_twice :: "palette option \<Rightarrow> image \<Rightarrow> palette \<Rightarrow> js_error + 8 word list" where
  "quantize_twice global_centroids img colors =
     (case quantize global_centroids img colors of
        Inl e \<Rightarrow> Inl e
      | Inr out \<Rightarrow> quantize global_centroids (img\<lparr>data := out\<rparr>) colors)"

section \<open>Notions used to state the properties\<close>

text \<open>
  The distance that \<^verbatim>\<open>nearestNeighbor\<close> computes for a candidate: the value of
  \<^verbatim>\<open>dist\<close> after the inner loop.
\<close>

definition computed_dist :: "point \<Rightarrow> point \<Rightarrow> jsnum" where
  "computed_dist p c = dist_loop (Num 0) p c"

text \<open>\<^verbatim>\<open>a <= b\<close> on numbers.\<close>

fun js_le :: "jsnum \<Rightarrow> jsnum \<Rightarrow> bool" where
  "js_le (Num a) (Num b) = (a \<le> b)"
| "js_le (Num a) PInf = True"
| "js_le NInf (Num b) = True"
| "js_le NInf PInf = True"
| "js_le PInf PInf = True"
| "js_le NInf NInf = True"
| "js_le _ _ = False"

text \<open>
  The squared Euclidean distance of two points given by their channel values, as a real
  number.
\<close>

definition sq_dist :: "real list \<Rightarrow> real list \<Rightarrow> real" where
  "sq_dist p c = (\<Sum>(a, b)\<leftarrow>zip p c. (a - b) * (a - b))"

text \<open>A palette whose entries are all points of \<open>C\<close> channels (none is \<^verbatim>\<open>undefined\<close>).\<close>

definition has_channels :: "nat \<Rightarrow> palette \<Rightarrow> bool" where
  "has_channels C cs = (\<forall>c \<in> set cs. \<exists>q. c = Some q \<and> length q = C)"

text \<open>The channel values of a pixel of samples, and the pixel as a point.\<close>

definition values_of_samples :: "8 word list \<Rightarrow> real list" where
  "values_of_samples ws = map (\<lambda>w. real (unat w)) ws"

definition sample_point :: "8 word list \<Rightarrow> point" where
  "sample_point ws = map of_uint8 ws"

text \<open>
  A dataset of 233281 points that alternate between two values: \<open>b\<close> at the even
  positions and \<open>a\<close> at the odd ones. With this length the index drawn by
  \<^verbatim>\<open>Math.floor(random() * dataset.length)\<close> is the generator's state itself: the state
  is below 233280, and \<open>seed * 233281 / 233280 = seed + seed / 233280\<close>, which is 0 or at
  least \<open>1 / 233280\<close> away from the next integer in both directions, more than the
  rounding of the quotient and of the product can change.
\<close>

definition parity_size :: nat where
  "parity_size = 233281"

definition parity_dataset :: "point \<Rightarrow> point \<Rightarrow> point list" where
  "parity_dataset a b = map (\<lambda>i. if odd i then a else b) [0..<parity_size]"

text \<open>
  A palette whose entries are in the sample domain of the raster: every channel value is
  an integer from 0 to 255, given here as the sample itself.
\<close>

definition sample_palette :: "8 word list list \<Rightarrow> palette" where
  "sample_palette pal = map (\<lambda>ws. Some (map of_uint8 ws)) pal"

text \<open>The entry of such a palette that \<^verbatim>\<open>nearestNeighbor\<close> selects for a pixel.\<close>

definition nearest_samples :: "8 word list list \<Rightarrow> 8 word list \<Rightarrow> 8 word list" where
  "nearest_samples pal px =
     (case nearestNeighbor (map of_uint8 px) (sample_palette pal) of
        Inr m \<Rightarrow> pal ! nat m
      | Inl e \<Rightarrow> [])"

section \<open>Properties of the functions\<close>

subsection \<open>Rounding to binary64\<close>

lemma round_half_even_error: "\<bar>of_int (round_half_even y) - y\<bar> \<le> 1 / 2"
  unfolding round_half_even_def Let_def by (auto simp: abs_if) linarith+

lemma round_half_even_of_int: "round_half_even (of_int k) = k"
  by (simp add: round_half_even_def)

lemma floor_log2_bounds:
  assumes "0 < x"
  shows "2 powr of_int \<lfloor>log 2 x\<rfloor> \<le> x" and "x < 2 powr (of_int \<lfloor>log 2 x\<rfloor> + 1)"
proof -
  have "2 powr of_int \<lfloor>log 2 x\<rfloor> \<le> 2 powr log 2 x"
    by (rule powr_mono) simp_all
  then show "2 powr of_int \<lfloor>log 2 x\<rfloor> \<le> x" using assms by simp
  have "log 2 x < of_int \<lfloor>log 2 x\<rfloor> + 1" by linarith
  then have "2 powr log 2 x < 2 powr (of_int \<lfloor>log 2 x\<rfloor> + 1)"
    by (rule powr_less_mono) simp
  then show "x < 2 powr (of_int \<lfloor>log 2 x\<rfloor> + 1)" using assms by simp
qed

lemma floor_log2_eq:
  assumes "2 powr of_int k \<le> x" and "x < 2 powr (of_int k + 1)"
  shows "\<lfloor>log 2 x\<rfloor> = k"
proof -
  have x: "0 < x" using assms(1) by (smt (verit) powr_gt_zero)
  have "of_int k \<le> log 2 x" using assms(1) x by (simp add: le_log_iff)
  moreover have "log 2 x < of_int k + 1" using assms(2) x by (simp add: log_less_iff)
  ultimately show ?thesis by linarith
qed


lemma binary64_error:
  assumes "0 < x"
  shows "\<bar>binary64 x - x\<bar> \<le> x / 2 ^ 53"
proof -
  let ?e = "\<lfloor>log 2 x\<rfloor> - 52"
  let ?u = "(2::real) powr of_int ?e"
  let ?r = "round_half_even (x / ?u)"
  have u: "0 < ?u" by simp
  have fl: "binary64 x = of_int ?r * ?u"
    using assms by (simp add: binary64_def Let_def)
  have "\<bar>of_int ?r * ?u - x\<bar> = \<bar>of_int ?r - x / ?u\<bar> * ?u"
  proof -
    have "of_int ?r * ?u - x = (of_int ?r - x / ?u) * ?u" using u by (simp add: field_simps)
    then show ?thesis using u by (simp add: abs_mult)
  qed
  also have "\<dots> \<le> (1 / 2) * ?u"
    by (rule mult_right_mono [OF round_half_even_error]) simp
  finally have err: "\<bar>binary64 x - x\<bar> \<le> ?u / 2" using fl by simp
  have p52: "(2::real) powr 52 = 2 ^ 52" by (simp add: powr_numeral)
  have "?u = 2 powr of_int \<lfloor>log 2 x\<rfloor> / 2 powr 52"
    by (simp add: powr_diff)
  then have "?u * 2 ^ 52 = 2 powr of_int \<lfloor>log 2 x\<rfloor>"
    unfolding p52 by simp
  then have "?u * 2 ^ 52 \<le> x" using floor_log2_bounds(1) [OF assms] by simp
  then have "?u / 2 \<le> x / 2 ^ 53" by (simp add: field_simps)
  with err show ?thesis by linarith
qed

lemma binary64_upper:
  assumes "0 < x"
  shows "binary64 x \<le> x * (1 + 1 / 2 ^ 53)"
proof -
  have "binary64 x - x \<le> x / 2 ^ 53" using binary64_error [OF assms] by linarith
  then have "binary64 x \<le> x + x / 2 ^ 53" by linarith
  also have "\<dots> = x * (1 + 1 / 2 ^ 53)" by (simp add: algebra_simps)
  finally show ?thesis .
qed

lemma binary64_pos: "0 < x \<Longrightarrow> 0 < binary64 x"
proof -
  assume x: "0 < x"
  have "x / 2 ^ 53 < x" using x by simp
  with binary64_error [OF x] show ?thesis by linarith
qed

lemma rescale_product_bound:
  fixes w h P :: real
  assumes w: "0 < w" and h: "0 < h" and P: "0 < P" "P \<le> 2 ^ 50"
  defines "a \<equiv> binary64 (w / h)"
  defines "s \<equiv> binary64 (sqrt (binary64 (P / a)))"
  defines "t \<equiv> binary64 (a * s)"
  shows "0 < a" and "0 < s" and "0 < t" and "t * s < P + 1"
proof -
  let ?d = "1 + 1 / (2::real) ^ 53"
  let ?q = "binary64 (P / a)"
  show a: "0 < a" unfolding a_def using w h by (intro binary64_pos) simp
  have Pa: "0 < P / a" using P a by simp
  have q: "0 < ?q" by (rule binary64_pos [OF Pa])
  have q_le: "?q \<le> P / a * ?d" by (rule binary64_upper [OF Pa])
  have sq: "0 < sqrt ?q" using q by simp
  show s: "0 < s" unfolding s_def by (rule binary64_pos [OF sq])
  have s_le: "s \<le> sqrt ?q * ?d" unfolding s_def by (rule binary64_upper [OF sq])
  have as: "0 < a * s" using a s by simp
  show t: "0 < t" unfolding t_def by (rule binary64_pos [OF as])
  have t_le: "t \<le> a * s * ?d" unfolding t_def by (rule binary64_upper [OF as])
  have "s * s \<le> (sqrt ?q * ?d) * (sqrt ?q * ?d)"
    using s s_le sq by (intro mult_mono) simp_all
  also have "\<dots> = ?q * (?d * ?d)" using q by (simp add: algebra_simps)
  also have "\<dots> \<le> (P / a * ?d) * (?d * ?d)"
    using q_le by (intro mult_right_mono) simp_all
  finally have ss: "s * s \<le> P / a * (?d * ?d * ?d)" by (simp add: algebra_simps)
  have "t * s \<le> (a * s * ?d) * s" using t_le s by (intro mult_right_mono) simp_all
  also have "\<dots> = a * ?d * (s * s)" by (simp add: algebra_simps)
  also have "\<dots> \<le> a * ?d * (P / a * (?d * ?d * ?d))"
    using ss a by (intro mult_left_mono) simp_all
  also have "\<dots> = P * (?d * ?d * ?d * ?d)" using a by (simp add: field_simps)
  finally have ts: "t * s \<le> P * (?d * ?d * ?d * ?d)" .
  have d4: "?d * ?d * ?d * ?d \<le> 1 + 5 / 2 ^ 53" by simp
  have "P * (?d * ?d * ?d * ?d) \<le> P * (1 + 5 / 2 ^ 53)"
    using d4 P(1) by (intro mult_left_mono) simp_all
  also have "\<dots> = P + P * (5 / 2 ^ 53)" by (simp add: algebra_simps)
  also have "P * (5 / 2 ^ 53) \<le> 2 ^ 50 * (5 / 2 ^ 53)"
    using P(2) by (intro mult_right_mono) simp_all
  finally have "P * (?d * ?d * ?d * ?d) \<le> P + 5 / 8" by simp
  with ts show "t * s < P + 1" by linarith
qed

lemma of_int_less_2_53: fixes k :: int assumes "k < 2 ^ 53" shows "real_of_int k < 2 ^ 53"
proof -
  have "real_of_int k < real_of_int (2 ^ 53)" using assms by (simp only: of_int_less_iff)
  then show ?thesis by simp
qed

lemma two_powr_53: "(2::real) powr 53 = 2 ^ 53" by (simp add: powr_numeral)

lemma two_powr_53_add: "(2::real) ^ 53 * 2 powr of_int j = 2 powr (53 + of_int j)"
  unfolding two_powr_53 [symmetric] by (simp add: powr_add)

lemma two_powr_split: fixes e j :: int assumes "e \<le> j" shows "(2::real) powr of_int j = 2 powr of_int e * 2 ^ nat (j - e)"
proof -
  have "of_int j = of_int e + real (nat (j - e))" using assms by simp
  then have "(2::real) powr of_int j = 2 powr (of_int e + real (nat (j - e)))" by (simp only:)
  also have "\<dots> = 2 powr of_int e * 2 powr real (nat (j - e))" by (rule powr_add)
  also have "2 powr real (nat (j - e)) = (2::real) ^ nat (j - e)" by (rule powr_realpow) simp
  finally show ?thesis .
qed


lemma binary64_exact:
  fixes k j :: int
  assumes k: "0 < k" "k < 2 ^ 53"
  shows "binary64 (of_int k * 2 powr of_int j) = of_int k * 2 powr of_int j"
proof -
  define x where "x = of_int k * (2::real) powr of_int j"
  define e where "e = \<lfloor>log 2 x\<rfloor> - 52"
  have x: "0 < x" using k(1) by (simp add: x_def)
  have "x < 2 ^ 53 * 2 powr of_int j" using of_int_less_2_53 [OF k(2)] by (simp add: x_def)
  also have "\<dots> = 2 powr (53 + of_int j)" by (rule two_powr_53_add)
  finally have "(2::real) powr of_int \<lfloor>log 2 x\<rfloor> < 2 powr (53 + of_int j)"
    using floor_log2_bounds(1) [OF x] by linarith
  then have "real_of_int \<lfloor>log 2 x\<rfloor> < 53 + of_int j" by simp
  then have ej: "e \<le> j" unfolding e_def by linarith
  define n where "n = nat (j - e)"
  have pw: "(2::real) powr of_int j = 2 powr of_int e * 2 ^ n"
    unfolding n_def by (rule two_powr_split [OF ej])
  have "x / 2 powr of_int e = of_int (k * 2 ^ n)"
    unfolding x_def pw by simp
  then have r: "round_half_even (x / 2 powr of_int e) = k * 2 ^ n"
    by (simp only: round_half_even_of_int)
  have "binary64 x = of_int (round_half_even (x / 2 powr of_int e)) * 2 powr of_int e"
    using x by (simp add: binary64_def Let_def e_def)
  also have "\<dots> = of_int (k * 2 ^ n) * 2 powr of_int e" by (simp only: r)
  also have "\<dots> = x" unfolding x_def pw by simp
  finally show ?thesis unfolding x_def .
qed

lemma binary64_of_int:
  fixes k :: int
  assumes "0 < k" "k < 2 ^ 53"
  shows "binary64 (of_int k) = of_int k"
  using binary64_exact [OF assms, of 0] by simp

lemma binary64_sqrt_example: "binary64 (sqrt 18014398777917440) = 134217729"
proof -
  define x :: real where "x = sqrt 18014398777917440"
  have x2: "x * x = 18014398777917440" by (simp add: x_def)
  have x0: "0 < x" by (simp add: x_def)
  have lo: "134217728 \<le> x"
    unfolding x_def by (rule real_le_rsqrt) simp
  have hi: "x < 134217729"
    unfolding x_def by (rule real_less_lsqrt) simp_all
  have near: "134217729 - 1 / 67108864 < x"
    unfolding x_def by (rule real_less_rsqrt) (simp add: power2_eq_square)
  have p27: "(2::real) powr of_int 27 \<le> x" using lo by (simp add: powr_numeral)
  have p28: "x < (2::real) powr (of_int 27 + 1)" using hi by (simp add: powr_numeral)
  have L: "\<lfloor>log 2 x\<rfloor> = 27"
    by (rule floor_log2_eq [OF p27 p28])
  have u: "(2::real) powr - 25 = 1 / 33554432"
    by (simp add: powr_minus powr_numeral divide_simps)
  let ?y = "x * 33554432"
  have y1: "4503599660924927 + 1 / 2 < ?y" using near by linarith
  have y2: "?y < 4503599660924928" using hi by linarith
  have "real_of_int 4503599660924927 \<le> ?y" using y1 by simp
  moreover have "?y < real_of_int 4503599660924927 + 1" using y2 by simp
  ultimately have fl: "\<lfloor>?y\<rfloor> = 4503599660924927" by (rule floor_unique)
  have "round_half_even ?y = 4503599660924928"
    unfolding round_half_even_def Let_def fl using y1 by simp
  then have "binary64 x = of_int 4503599660924928 * (1 / 33554432)"
    using x0 by (simp add: binary64_def Let_def L u)
  then show ?thesis by (simp add: x_def)
qed

lemma binary64_one: "binary64 1 = 1"
  using binary64_of_int [of 1] by simp

lemma rescaleDimensions_positive:
  assumes "0 < w" and "0 < h" and "0 < P"
  shows "rescaleDimensions w h P =
           Some (\<lfloor>binary64 (binary64 (w / h) * binary64 (sqrt (binary64 (P / binary64 (w / h)))))\<rfloor>,
                 \<lfloor>binary64 (sqrt (binary64 (P / binary64 (w / h))))\<rfloor>)"
proof -
  have a: "0 < binary64 (w / h)" using assms by (intro binary64_pos) simp
  then have "\<not> P / binary64 (w / h) < 0" using assms(3) by (simp add: not_less)
  with a assms(2) show ?thesis by (simp add: rescaleDimensions_def Let_def)
qed

lemma rescaleDimensions_100: "rescaleDimensions 100 100 10000 = Some (100, 100)"
proof -
  have s: "sqrt 10000 = 100" by (rule real_sqrt_unique) simp_all
  have b100: "binary64 100 = 100" using binary64_of_int [of 100] by simp
  have b10000: "binary64 10000 = 10000" using binary64_of_int [of 10000] by simp
  show ?thesis
    by (simp add: rescaleDimensions_positive binary64_one b100 b10000 s)
qed

lemma rescaleDimensions_huge:
  "rescaleDimensions 1 1 18014398777917440 = Some (134217729, 134217729)"
proof -
  have bP: "binary64 18014398777917440 = 18014398777917440"
    using binary64_exact [of 67108865 28] by (simp add: powr_numeral)
  have bn: "binary64 134217729 = 134217729" using binary64_of_int [of 134217729] by simp
  show ?thesis
    by (simp add: rescaleDimensions_positive binary64_one bP bn binary64_sqrt_example)
qed

subsection \<open>Rounding over the whole range\<close>

lemma floor_minus_real:
  fixes y :: real
  shows "\<lfloor>- y\<rfloor> = (if y = of_int \<lfloor>y\<rfloor> then - \<lfloor>y\<rfloor> else - \<lfloor>y\<rfloor> - 1)"
proof (cases "y = of_int \<lfloor>y\<rfloor>")
  case True
  then have "- y = of_int (- \<lfloor>y\<rfloor>)" by simp
  then have "\<lfloor>- y\<rfloor> = - \<lfloor>y\<rfloor>" by (metis floor_of_int)
  with True show ?thesis by simp
next
  case False
  have "of_int \<lfloor>y\<rfloor> < y" using False by (smt (verit) of_int_floor_le)
  moreover have "y < of_int \<lfloor>y\<rfloor> + 1" by linarith
  ultimately have "\<lfloor>- y\<rfloor> = - \<lfloor>y\<rfloor> - 1" by (intro floor_unique; simp; linarith)
  with False show ?thesis by simp
qed

lemma round_half_even_minus: "round_half_even (- y) = - round_half_even y"
proof (cases "y = of_int \<lfloor>y\<rfloor>")
  case True
  then obtain k where "y = of_int k" ..
  then show ?thesis by (simp add: round_half_even_of_int flip: of_int_minus)
next
  case False
  have f: "\<lfloor>- y\<rfloor> = - \<lfloor>y\<rfloor> - 1" using False by (simp add: floor_minus_real)
  have lt: "of_int \<lfloor>y\<rfloor> < y" using False by (smt (verit) of_int_floor_le)
  show ?thesis
    unfolding round_half_even_def Let_def f using lt
    by (auto simp: algebra_simps)
qed

lemma binary64_minus: "binary64 (- x) = - binary64 x"
  by (simp add: binary64_def Let_def round_half_even_minus)


lemma round64_dyadic:
  fixes k :: int and n :: nat
  assumes k: "\<bar>k\<bar> < 2 ^ 53" and n: "n \<le> 1022"
  shows "round64 (of_int k / 2 ^ n) = Num (of_int k / 2 ^ n)"
proof -
  have pos: "round64 (of_int j / 2 ^ n) = Num (of_int j / 2 ^ n) \<and>
             binary64 (of_int j / 2 ^ n) = of_int j / 2 ^ n \<and>
             1 / 2 ^ 1022 \<le> real_of_int j / 2 ^ n"
    if j: "0 < j" "j < 2 ^ 53" for j :: int
  proof -
    define x where "x = real_of_int j / 2 ^ n"
    have p: "(2::real) powr of_int (- int n) = 1 / 2 ^ n"
      by (simp add: powr_minus powr_realpow divide_simps)
    have b: "binary64 x = x"
      using binary64_exact [OF j, of "- int n"] unfolding p by (simp add: x_def)
    have "(2::real) ^ n \<le> 2 ^ 1022" using n by (intro power_increasing) simp_all
    then have "1 / 2 ^ 1022 \<le> 1 / (2::real) ^ n" by (simp add: field_simps)
    also have "\<dots> \<le> x" using j(1) by (simp add: x_def field_simps)
    finally have lo: "1 / 2 ^ 1022 \<le> x" .
    then have x0: "0 < x" by (smt (verit) zero_less_divide_1_iff zero_less_numeral zero_less_power)
    have "x \<le> real_of_int j" using j(1) by (simp add: x_def field_simps)
    also have "\<dots> < 2 ^ 53" by (rule of_int_less_2_53 [OF j(2)])
    also have "\<dots> \<le> (2::real) ^ 1024" by (intro power_increasing) simp_all
    finally have hi: "x < 2 ^ 1024" .
    have "round64 x = Num x"
      using lo x0 hi b by (simp add: round64_def Let_def abs_if not_less)
    with b lo show ?thesis by (simp add: x_def)
  qed
  consider "k = 0" | "0 < k" | "k < 0" by linarith
  then show ?thesis
  proof cases
    case 1
    then show ?thesis by (simp add: round64_def round_half_even_def)
  next
    case 2
    with k pos [of k] show ?thesis by simp
  next
    case 3
    define x where "x = real_of_int (- k) / 2 ^ n"
    have j: "0 < - k" "- k < 2 ^ 53" using 3 k by simp_all
    from pos [OF j] have b: "binary64 x = x" and lo: "1 / 2 ^ 1022 \<le> x"
      by (simp_all add: x_def)
    have jr: "0 < real_of_int (- k)" using j(1) by (simp only: of_int_0_less_iff)
    have x0: "0 < x" unfolding x_def using jr by (intro divide_pos_pos) simp_all
    have "x \<le> real_of_int (- k)" using jr by (simp add: x_def field_simps)
    also have "\<dots> < 2 ^ 53" by (rule of_int_less_2_53 [OF j(2)])
    also have "\<dots> \<le> (2::real) ^ 1024" by (intro power_increasing) simp_all
    finally have hi: "x < 2 ^ 1024" .
    have bm: "binary64 (- x) = - x" using b by (simp add: binary64_minus)
    have r: "round64 (- x) = Num (- x)"
      using lo x0 hi bm by (simp add: round64_def Let_def abs_if not_less)
    have "- x = real_of_int k / 2 ^ n" by (simp add: x_def)
    with r show ?thesis by (simp only:)
  qed
qed

lemma round64_exact:
  assumes "real_of_int \<lfloor>x * 1024\<rfloor> = x * 1024" and "\<bar>x\<bar> < 2 ^ 43"
  shows "round64 x = Num x"
proof -
  define k where "k = \<lfloor>x * 1024\<rfloor>"
  have "real_of_int k = x * 1024" unfolding k_def by (rule assms(1))
  then have x: "x = of_int k / 2 ^ 10" by simp
  have "\<bar>real_of_int k\<bar> = \<bar>x\<bar> * 1024" by (simp add: x)
  also have "\<dots> < 2 ^ 43 * 1024" using assms(2) by simp
  finally have "\<bar>real_of_int k\<bar> < real_of_int (2 ^ 53)" by simp
  then have "\<bar>k\<bar> < 2 ^ 53" by linarith
  from round64_dyadic [OF this, of 10] show ?thesis by (simp add: x)
qed

lemma round64_of_nat: "n < 2 ^ 53 \<Longrightarrow> round64 (real n) = Num (real n)"
  using round64_dyadic [of "int n" 0] by simp

lemma round64_of_int: "\<bar>k\<bar> < 2 ^ 53 \<Longrightarrow> round64 (of_int k) = Num (of_int k)"
  using round64_dyadic [of k 0] by simp

subsection \<open>The index that is drawn\<close>

lemma random_step_less: "random_step s < 233280"
  by (simp add: random_step_def)

lemma binary64_zero: "binary64 0 = 0"
  by (simp add: binary64_def)

lemma binary64_lower:
  assumes "0 < x"
  shows "x * (1 - 1 / 2 ^ 53) \<le> binary64 x"
proof -
  have "x - binary64 x \<le> x / 2 ^ 53" using binary64_error [OF assms] by linarith
  then have "x - x / 2 ^ 53 \<le> binary64 x" by linarith
  moreover have "x - x / 2 ^ 53 = x * (1 - 1 / 2 ^ 53)" by (simp add: algebra_simps)
  ultimately show ?thesis by simp
qed

lemma drawn_bounds:
  assumes "0 < s" and "0 < L"
  defines "q \<equiv> real s * real L / 233280"
  defines "z \<equiv> binary64 (random_value s * real L)"
  shows "q * (1 - 1 / 2 ^ 52) \<le> z" and "z \<le> q * (1 + 1 / 2 ^ 51)"
proof -
  let ?x = "real s / 233280"
  let ?y = "binary64 ?x"
  let ?d = "1 + 1 / (2::real) ^ 53"
  let ?c = "1 - 1 / (2::real) ^ 53"
  have x: "0 < ?x" using assms(1) by simp
  have y: "0 < ?y" by (rule binary64_pos [OF x])
  have L: "0 < real L" using assms(2) by simp
  have yL: "0 < ?y * real L" using y L by simp
  have q: "0 < q" "q = ?x * real L" using assms(1,2) by (simp_all add: q_def)
  have z: "z = binary64 (?y * real L)" by (simp add: z_def random_value_def)
  have "?x * ?c * real L \<le> ?y * real L"
    using binary64_lower [OF x] L by (intro mult_right_mono) simp_all
  then have "q * ?c * ?c \<le> ?y * real L * ?c"
    unfolding q(2) by (intro mult_right_mono) (simp_all add: algebra_simps)
  also have "\<dots> \<le> z" unfolding z by (rule binary64_lower [OF yL])
  finally have lo: "q * (?c * ?c) \<le> z" by (simp add: algebra_simps)
  have c2: "1 - 1 / 2 ^ 52 \<le> ?c * ?c" by simp
  have "q * (1 - 1 / 2 ^ 52) \<le> q * (?c * ?c)"
    using q(1) c2 by (intro mult_left_mono) simp_all
  with lo show "q * (1 - 1 / 2 ^ 52) \<le> z" by linarith
  have "?y * real L \<le> ?x * ?d * real L"
    using binary64_upper [OF x] L by (intro mult_right_mono) simp_all
  then have "?y * real L * ?d \<le> q * ?d * ?d"
    unfolding q(2) by (intro mult_right_mono) (simp_all add: algebra_simps)
  moreover have "z \<le> ?y * real L * ?d" unfolding z by (rule binary64_upper [OF yL])
  ultimately have hi: "z \<le> q * (?d * ?d)" by (simp add: algebra_simps)
  have d2: "?d * ?d \<le> 1 + 1 / 2 ^ 51" by simp
  have "q * (?d * ?d) \<le> q * (1 + 1 / 2 ^ 51)"
    using q(1) d2 by (intro mult_left_mono) simp_all
  with hi show "z \<le> q * (1 + 1 / 2 ^ 51)" by linarith
qed

lemma drawn_index:
  fixes s L :: nat
  defines "q \<equiv> real s * real L / 233280"
  assumes lo: "real_of_int \<lfloor>q\<rfloor> \<le> q * (1 - 1 / 2 ^ 52)"
    and hi: "q * (1 + 1 / 2 ^ 51) < real_of_int \<lfloor>q\<rfloor> + 1"
  shows "\<lfloor>binary64 (random_value s * real L)\<rfloor> = \<lfloor>q\<rfloor>"
proof (cases "0 < s \<and> 0 < L")
  case True
  from drawn_bounds [of s L] True
  have "q * (1 - 1 / 2 ^ 52) \<le> binary64 (random_value s * real L)"
    and "binary64 (random_value s * real L) \<le> q * (1 + 1 / 2 ^ 51)"
    by (simp_all add: q_def)
  with lo hi show ?thesis by (intro floor_unique) linarith+
next
  case False
  then have "s = 0 \<or> L = 0" by auto
  then show ?thesis
    by (auto simp: q_def random_value_def binary64_zero)
qed

lemma drawn_in_range:
  assumes "s < 233280" and "0 < L"
  shows "0 \<le> \<lfloor>binary64 (random_value s * real L)\<rfloor>"
    and "\<lfloor>binary64 (random_value s * real L)\<rfloor> < int L"
proof -
  let ?z = "binary64 (random_value s * real L)"
  have "0 \<le> ?z \<and> ?z < real L"
  proof (cases "s = 0")
    case True
    then show ?thesis using assms(2) by (simp add: random_value_def binary64_zero)
  next
    case False
    then have s: "0 < s" by simp
    let ?q = "real s * real L / 233280"
    have q: "0 < ?q" using s assms(2) by simp
    have "real s \<le> 233279" using assms(1) by simp
    then have "?q \<le> 233279 * real L / 233280"
      using assms(2) by (simp add: field_simps)
    then have "?q * (1 + 1 / 2 ^ 51) \<le> 233279 * real L / 233280 * (1 + 1 / 2 ^ 51)"
      by (intro mult_right_mono) simp_all
    also have "\<dots> = real L * (233279 / 233280 * (1 + 1 / 2 ^ 51))" by simp
    also have "\<dots> < real L * 1"
      using assms(2) by (intro mult_strict_left_mono) simp_all
    finally have "?q * (1 + 1 / 2 ^ 51) < real L" by simp
    moreover have "0 \<le> ?q * (1 - 1 / 2 ^ 52)" using q by simp
    ultimately show ?thesis using drawn_bounds [OF s assms(2)] by linarith
  qed
  then show "0 \<le> \<lfloor>?z\<rfloor>" and "\<lfloor>?z\<rfloor> < int L"
    by (simp_all add: floor_less_iff)
qed

lemma draw_point_in_dataset:
  assumes "dataset \<noteq> []"
  shows "\<exists>p \<in> set dataset. draw_point dataset s = (Some p, random_step s)"
proof -
  let ?i = "\<lfloor>binary64 (random_value (random_step s) * real (length dataset))\<rfloor>"
  have L: "0 < length dataset" using assms by simp
  from drawn_in_range [OF random_step_less L, of s]
  have i: "0 \<le> ?i" "?i < int (length dataset)" by simp_all
  then have "nat ?i < length dataset" by linarith
  then have "dataset ! nat ?i \<in> set dataset" by simp
  moreover have "draw_point dataset s = (Some (dataset ! nat ?i), random_step s)"
    using i by (simp add: draw_point_def js_get_def Let_def)
  ultimately show ?thesis by blast
qed

subsection \<open>The comparison of numbers\<close>

lemma js_less_irrefl: "\<not> js_less a a"
  by (cases a) simp_all

lemma js_less_trans: "js_less a b \<Longrightarrow> js_less b c \<Longrightarrow> js_less a c"
  by (cases a; cases b; cases c) simp_all

lemma js_less_asym: "js_less a b \<Longrightarrow> \<not> js_less b a"
  by (cases a; cases b) simp_all

lemma js_less_not_le: "js_less a b \<Longrightarrow> \<not> js_le b a"
  by (cases a; cases b) simp_all

lemma js_le_less_trans: "js_le a b \<Longrightarrow> js_less b c \<Longrightarrow> js_less a c"
  by (cases a; cases b; cases c) simp_all

subsection \<open>The index that nearestNeighbor returns\<close>

lemma nn_loop_argmin:
  "(nn_loop p (map Some cs) i bd bi = Inr bi \<and>
      (\<forall>j < length cs. \<not> js_less (computed_dist p (cs ! j)) bd))
   \<or> (\<exists>m < length cs.
         nn_loop p (map Some cs) i bd bi = Inr (i + int m) \<and>
         js_less (computed_dist p (cs ! m)) bd \<and>
         (\<forall>j < m. \<not> js_le (computed_dist p (cs ! j)) (computed_dist p (cs ! m))) \<and>
         (\<forall>j < length cs. \<not> js_less (computed_dist p (cs ! j)) (computed_dist p (cs ! m))))"
proof (induction cs arbitrary: i bd bi)
  case Nil
  then show ?case by simp
next
  case (Cons c cs)
  let ?d = "\<lambda>c. computed_dist p c"
  show ?case
  proof (cases "js_less (?d c) bd")
    case True
    then have unf: "nn_loop p (map Some (c # cs)) i bd bi = nn_loop p (map Some cs) (i + 1) (?d c) i"
      by (simp add: computed_dist_def)
    from Cons.IH [of "i + 1" "?d c" i]
    show ?thesis
    proof
      assume a: "nn_loop p (map Some cs) (i + 1) (?d c) i = Inr i \<and>
            (\<forall>j < length cs. \<not> js_less (?d (cs ! j)) (?d c))"
      have "\<exists>m < length (c # cs).
               nn_loop p (map Some (c # cs)) i bd bi = Inr (i + int m) \<and>
               js_less (?d ((c # cs) ! m)) bd \<and>
               (\<forall>j < m. \<not> js_le (?d ((c # cs) ! j)) (?d ((c # cs) ! m))) \<and>
               (\<forall>j < length (c # cs). \<not> js_less (?d ((c # cs) ! j)) (?d ((c # cs) ! m)))"
        apply (rule exI [of _ 0])
        using a True unf by (auto simp: nth_Cons' js_less_irrefl)
      then show ?thesis by blast
    next
      assume "\<exists>m < length cs.
               nn_loop p (map Some cs) (i + 1) (?d c) i = Inr (i + 1 + int m) \<and>
               js_less (?d (cs ! m)) (?d c) \<and>
               (\<forall>j < m. \<not> js_le (?d (cs ! j)) (?d (cs ! m))) \<and>
               (\<forall>j < length cs. \<not> js_less (?d (cs ! j)) (?d (cs ! m)))"
      then obtain m where m: "m < length cs"
        "nn_loop p (map Some cs) (i + 1) (?d c) i = Inr (i + 1 + int m)"
        "js_less (?d (cs ! m)) (?d c)"
        "\<forall>j < m. \<not> js_le (?d (cs ! j)) (?d (cs ! m))"
        "\<forall>j < length cs. \<not> js_less (?d (cs ! j)) (?d (cs ! m))"
        by auto
      have lb: "js_less (?d (cs ! m)) bd" by (rule js_less_trans [OF m(3) True])
      have n1: "\<not> js_le (?d c) (?d (cs ! m))" by (rule js_less_not_le [OF m(3)])
      have n2: "\<not> js_less (?d c) (?d (cs ! m))" by (rule js_less_asym [OF m(3)])
      have "\<exists>m < length (c # cs).
               nn_loop p (map Some (c # cs)) i bd bi = Inr (i + int m) \<and>
               js_less (?d ((c # cs) ! m)) bd \<and>
               (\<forall>j < m. \<not> js_le (?d ((c # cs) ! j)) (?d ((c # cs) ! m))) \<and>
               (\<forall>j < length (c # cs). \<not> js_less (?d ((c # cs) ! j)) (?d ((c # cs) ! m)))"
        apply (rule exI [of _ "Suc m"])
        using m(1,2,4,5) lb n1 n2 unf by (auto simp: nth_Cons' less_Suc_eq_0_disj)
      then show ?thesis by blast
    qed
  next
    case False
    then have unf: "nn_loop p (map Some (c # cs)) i bd bi = nn_loop p (map Some cs) (i + 1) bd bi"
      by (simp add: computed_dist_def)
    from Cons.IH [of "i + 1" bd bi]
    show ?thesis
    proof
      assume a: "nn_loop p (map Some cs) (i + 1) bd bi = Inr bi \<and>
            (\<forall>j < length cs. \<not> js_less (?d (cs ! j)) bd)"
      have "nn_loop p (map Some (c # cs)) i bd bi = Inr bi \<and>
            (\<forall>j < length (c # cs). \<not> js_less (?d ((c # cs) ! j)) bd)"
        using a False unf by (auto simp: nth_Cons' less_Suc_eq_0_disj)
      then show ?thesis by blast
    next
      assume "\<exists>m < length cs.
               nn_loop p (map Some cs) (i + 1) bd bi = Inr (i + 1 + int m) \<and>
               js_less (?d (cs ! m)) bd \<and>
               (\<forall>j < m. \<not> js_le (?d (cs ! j)) (?d (cs ! m))) \<and>
               (\<forall>j < length cs. \<not> js_less (?d (cs ! j)) (?d (cs ! m)))"
      then obtain m where m: "m < length cs"
        "nn_loop p (map Some cs) (i + 1) bd bi = Inr (i + 1 + int m)"
        "js_less (?d (cs ! m)) bd"
        "\<forall>j < m. \<not> js_le (?d (cs ! j)) (?d (cs ! m))"
        "\<forall>j < length cs. \<not> js_less (?d (cs ! j)) (?d (cs ! m))"
        by auto
      have n1: "\<not> js_le (?d c) (?d (cs ! m))"
        using js_le_less_trans [OF _ m(3)] False by blast
      have n2: "\<not> js_less (?d c) (?d (cs ! m))"
        using js_less_trans [OF _ m(3)] False by blast
      have "\<exists>m < length (c # cs).
               nn_loop p (map Some (c # cs)) i bd bi = Inr (i + int m) \<and>
               js_less (?d ((c # cs) ! m)) bd \<and>
               (\<forall>j < m. \<not> js_le (?d ((c # cs) ! j)) (?d ((c # cs) ! m))) \<and>
               (\<forall>j < length (c # cs). \<not> js_less (?d ((c # cs) ! j)) (?d ((c # cs) ! m)))"
        apply (rule exI [of _ "Suc m"])
        using m n1 n2 unf by (auto simp: nth_Cons' less_Suc_eq_0_disj)
      then show ?thesis by blast
    qed
  qed
qed

lemma nearestNeighbor_argmin:
  "(nearestNeighbor p (map Some cs) = Inr (- 1) \<and>
      (\<forall>j < length cs. \<not> js_less (computed_dist p (cs ! j)) PInf))
   \<or> (\<exists>m < length cs.
         nearestNeighbor p (map Some cs) = Inr (int m) \<and>
         js_less (computed_dist p (cs ! m)) PInf \<and>
         (\<forall>j < m. \<not> js_le (computed_dist p (cs ! j)) (computed_dist p (cs ! m))) \<and>
         (\<forall>j < length cs. \<not> js_less (computed_dist p (cs ! j)) (computed_dist p (cs ! m))))"
  using nn_loop_argmin [of p cs 0 PInf "- 1"] by (simp add: nearestNeighbor_def)

subsection \<open>Shape of the centroids\<close>

lemma init_centroids_shape:
  assumes "dataset \<noteq> []"
  shows "length (fst (init_centroids n dataset s)) = n \<and>
         (\<forall>c \<in> set (fst (init_centroids n dataset s)). \<exists>p \<in> set dataset. c = Some p)"
proof (induction n arbitrary: s)
  case 0
  then show ?case by simp
next
  case (Suc n)
  obtain p where p: "p \<in> set dataset" "draw_point dataset s = (Some p, random_step s)"
    using draw_point_in_dataset [OF assms] by blast
  with Suc [of "random_step s"] show ?case
    by (auto simp: split_beta)
qed

lemma assign_points_shape:
  assumes "assign_points ps centroids clusters = Inr cls"
    and "\<forall>p \<in> set ps. length p = C"
    and "\<forall>cl \<in> set clusters. \<forall>q \<in> set cl. length q = C"
  shows "length cls = length clusters \<and> (\<forall>cl \<in> set cls. \<forall>q \<in> set cl. length q = C)"
  using assms
proof (induction ps arbitrary: clusters)
  case Nil
  then show ?case by auto
next
  case (Cons p ps)
  from Cons.prems(1) obtain r cluster where r: "nearestNeighbor p centroids = Inr r"
    "js_get clusters r = Some cluster"
    "assign_points ps centroids (clusters[nat r := cluster @ [p]]) = Inr cls"
    by (auto split: sum.splits option.splits)
  have cl: "cluster \<in> set clusters"
    using r(2) by (auto simp: js_get_def split: if_splits)
  have "\<forall>q \<in> set (cluster @ [p]). length q = C"
    using Cons.prems(2,3) cl by auto
  then have good: "\<forall>cl \<in> set (clusters[nat r := cluster @ [p]]). \<forall>q \<in> set cl. length q = C"
    using Cons.prems(3) set_update_subset_insert [of clusters "nat r" "cluster @ [p]"] by blast
  from Cons.IH [OF r(3) _ good] Cons.prems(2) show ?case by simp
qed

lemma running_update_length:
  "length rc = length p \<Longrightarrow> length (running_update rc p n) = length p"
  by (induction rc p n rule: running_update.induct) simp_all

lemma centroid_loop_length:
  "length rc = C \<Longrightarrow> \<forall>p \<in> set ps. length p = C \<Longrightarrow> length (centroid_loop rc ps i) = C"
  by (induction ps arbitrary: rc i) (simp_all add: running_update_length)

lemma centroid_length:
  assumes "cluster \<noteq> []" and "\<forall>p \<in> set cluster. length p = C"
  shows "length (centroid cluster) = C"
proof -
  obtain d0 rest where c: "cluster = d0 # rest" using assms(1) by (cases cluster) auto
  then have "length (replicate (length d0) (Num 0)) = C" using assms(2) by simp
  from centroid_loop_length [OF this assms(2)] show ?thesis
    by (simp add: centroid_def c)
qed

lemma update_loop_shape:
  assumes "dataset \<noteq> []" and "\<forall>p \<in> set dataset. length p = C"
    and "update_loop dataset clusters olds conv0 s = Inr (cs, conv, s')"
    and "length clusters = length olds"
    and "\<forall>cl \<in> set clusters. \<forall>q \<in> set cl. length q = C"
  shows "length cs = length olds \<and> has_channels C cs"
  using assms(3-5)
proof (induction clusters arbitrary: olds conv0 s cs)
  case Nil
  then show ?case by (simp add: has_channels_def)
next
  case (Cons cluster clusters)
  then obtain old olds' where olds: "olds = old # olds'" by (cases olds) auto
  let ?draw = "if cluster \<noteq> [] then (Some (centroid cluster), s) else draw_point dataset s"
  have "\<exists>c s1. ?draw = (Some c, s1) \<and> length c = C"
  proof (cases "cluster = []")
    case True
    then show ?thesis using draw_point_in_dataset [OF assms(1), of s] assms(2) by auto
  next
    case False
    then show ?thesis using centroid_length [of cluster C] Cons.prems(3) by auto
  qed
  then obtain c s1 where draw: "?draw = (Some c, s1)" and c: "length c = C" by blast
  from Cons.prems(1) obtain conv1 cs1 where
    rec: "update_loop dataset clusters olds' conv1 s1 = Inr (cs1, conv, s')"
    and cs: "cs = Some c # cs1"
    unfolding olds update_loop.simps draw
    by (auto simp: Let_def split: sum.splits if_splits)
  from Cons.IH [OF rec] Cons.prems(2,3) olds
  have "length cs1 = length olds' \<and> has_channels C cs1" by simp
  with cs c olds show ?case by (simp add: has_channels_def)
qed

lemma kMeans_round_shape:
  assumes "dataset \<noteq> []" and "\<forall>p \<in> set dataset. length p = C"
    and "length centroids = nat k"
    and "kMeans_round dataset k centroids s = Inr (cs, conv, s')"
  shows "length cs = nat k \<and> has_channels C cs"
proof -
  from assms(4) obtain cls where
    cls: "assign_points dataset centroids (replicate (nat k) []) = Inr cls"
    and upd: "update_loop dataset cls centroids True s = Inr (cs, conv, s')"
    by (auto simp: kMeans_round_def split: if_splits sum.splits)
  from assign_points_shape [OF cls assms(2)]
  have shape: "length cls = nat k" "\<forall>cl \<in> set cls. \<forall>q \<in> set cl. length q = C" by simp_all
  from update_loop_shape [OF assms(1,2) upd _ shape(2)] shape(1) assms(3)
  show ?thesis by simp
qed

text \<open>
  The proof rule for the \<^verbatim>\<open>while (true)\<close> loop: a property \<open>I\<close> of the centroids and the
  generator that every round without convergence keeps, and a property \<open>R\<close> of what a
  round hands back when it ends the loop, give \<open>R\<close> of the result of any run that ends.
\<close>

lemma kMeans_while_rule:
  assumes ret: "kMeans_while dataset k centroids seed = Some r"
    and inv: "I centroids seed"
    and step: "\<And>cs s. I cs s \<Longrightarrow>
       (case kMeans_round dataset k cs s of
          Inl e \<Rightarrow> R (Inl e)
        | Inr (cs', conv, s') \<Rightarrow> if conv then R (Inr cs') else I cs' s')"
  shows "R r"
proof -
  let ?P = "\<lambda>d k' cs s r'. d = dataset \<longrightarrow> k' = k \<longrightarrow> I cs s \<longrightarrow> R r'"
  have "?P dataset k centroids seed r"
  proof (rule kMeans_while.raw_induct [where P = ?P, OF _ ret])
    fix loop d k' cs s r'
    assume IH: "\<And>d k' cs s r'. loop d k' cs s = Some r' \<Longrightarrow> ?P d k' cs s r'"
      and body: "(case kMeans_round d k' cs s of
                    Inl e \<Rightarrow> Some (Inl e)
                  | Inr (centroids', converged, seed') \<Rightarrow>
                      if converged then Some (Inr centroids') else loop d k' centroids' seed') = Some r'"
    show "?P d k' cs s r'"
    proof (intro impI)
      assume eqs: "d = dataset" "k' = k" and I: "I cs s"
      note st = step [OF I]
      show "R r'"
      proof (cases "kMeans_round dataset k cs s")
        case (Inl e)
        with body eqs st show ?thesis by auto
      next
        case (Inr t)
        obtain cs' conv s' where t: "t = (cs', conv, s')" by (cases t) auto
        show ?thesis
        proof (cases conv)
          case True
          with body eqs st Inr t show ?thesis by auto
        next
          case False
          with body eqs Inr t have "loop dataset k cs' s' = Some r'" by simp
          from IH [OF this] False st Inr t show ?thesis by simp
        qed
      qed
    qed
  qed
  then show ?thesis using inv by simp
qed

lemma kMeans_shape:
  assumes "dataset \<noteq> []" and "\<forall>p \<in> set dataset. length p = C"
    and "kMeans dataset (Some k) = Some (Inr pal)"
  shows "length pal = nat k \<and> has_channels C pal"
proof -
  obtain cs0 s0 where init: "init_centroids (nat k) dataset 0 = (cs0, s0)"
    by (cases "init_centroids (nat k) dataset 0") auto
  from init_centroids_shape [OF assms(1), of "nat k" 0] init
  have cs0: "length cs0 = nat k" by simp
  have ret: "kMeans_while dataset k cs0 s0 = Some (Inr pal)"
    using assms(3) init by (simp add: kMeans_def)
  let ?R = "\<lambda>r :: js_error + palette. \<forall>cs. r = Inr cs \<longrightarrow> length cs = nat k \<and> has_channels C cs"
  have "?R (Inr pal)"
  proof (rule kMeans_while_rule [OF ret, where I = "\<lambda>cs s. length cs = nat k" and R = ?R])
    show "length cs0 = nat k" by (rule cs0)
  next
    fix cs :: palette and s :: nat
    assume len: "length cs = nat k"
    show "case kMeans_round dataset k cs s of
        Inl e \<Rightarrow> ?R (Inl e)
      | Inr (cs', conv, s') \<Rightarrow> if conv then ?R (Inr cs') else length cs' = nat k"
    proof (cases "kMeans_round dataset k cs s")
      case (Inl e)
      then show ?thesis by simp
    next
      case (Inr t)
      obtain cs' conv s' where t: "t = (cs', conv, s')" by (cases t) auto
      from kMeans_round_shape [OF assms(1,2) len Inr [unfolded t]] Inr t
      show ?thesis by simp
    qed
  qed
  then show ?thesis by simp
qed

subsection \<open>Arithmetic on samples\<close>

lemma unat_sample_less: "unat (w :: 8 word) < 256"
  using unsigned_less [of w, where ?'a = nat] by simp

lemma sample_step:
  fixes x y :: "8 word" and A :: int
  assumes "0 \<le> A" and "A + 65025 < 2 ^ 53"
  defines "d \<equiv> uint x - uint y"
  shows "js_add (Num (of_int A)) (js_pow2 (js_sub (of_uint8 x) (of_uint8 y))) = Num (of_int (A + d * d))"
    and "0 \<le> d * d" and "d * d \<le> 65025"
proof -
  have x: "uint x < 256" "0 \<le> uint x" and y: "uint y < 256" "0 \<le> uint y"
    using unsigned_less [of x, where ?'a = int] unsigned_less [of y, where ?'a = int]
    by simp_all
  have d: "\<bar>d\<bar> \<le> 255" unfolding d_def using x y by linarith
  show sq0: "0 \<le> d * d" by simp
  have "\<bar>d\<bar> * \<bar>d\<bar> \<le> 255 * 255" using d by (intro mult_mono) simp_all
  then show sq: "d * d \<le> 65025" by (simp add: abs_mult_self_eq)
  have "real (unat x) - real (unat y) = of_int d" by (simp add: d_def)
  moreover have "round64 (of_int d) = Num (of_int d)"
    using d by (intro round64_of_int) simp
  ultimately have s: "js_sub (of_uint8 x) (of_uint8 y) = Num (of_int d)"
    by (simp add: of_uint8_def)
  have r2: "round64 (real_of_int d * real_of_int d) = Num (real_of_int d * real_of_int d)"
    using round64_of_int [of "d * d"] sq sq0 by simp
  have r3: "round64 (real_of_int A + real_of_int d * real_of_int d) =
      Num (real_of_int A + real_of_int d * real_of_int d)"
    using round64_of_int [of "A + d * d"] sq sq0 assms(1,2) by simp
  show "js_add (Num (of_int A)) (js_pow2 (js_sub (of_uint8 x) (of_uint8 y))) = Num (of_int (A + d * d))"
    by (simp add: s r2 r3)
qed

lemma dist_loop_samples:
  fixes A :: int
  assumes "length p = length c" and "0 \<le> A" and "A + 65025 * int (length p) < 2 ^ 53"
  shows "dist_loop (Num (of_int A)) (sample_point p) (sample_point c) =
         Num (of_int A + sq_dist (values_of_samples p) (values_of_samples c))"
  using assms
proof (induction p arbitrary: c A)
  case Nil
  then show ?case by (simp add: sample_point_def sq_dist_def values_of_samples_def)
next
  case (Cons x p)
  then obtain y c' where c: "c = y # c'" by (cases c) auto
  define d where "d = uint x - uint y"
  have A: "A + 65025 < 2 ^ 53" using Cons.prems(3) by simp
  note st = sample_step [OF Cons.prems(2) A, of x y, folded d_def]
  have "dist_loop (Num (of_int (A + d * d))) (sample_point p) (sample_point c') =
        Num (of_int (A + d * d) + sq_dist (values_of_samples p) (values_of_samples c'))"
    using Cons.prems c st(2,3) by (intro Cons.IH) simp_all
  moreover have "sq_dist (values_of_samples (x # p)) (values_of_samples (y # c')) =
      of_int (d * d) + sq_dist (values_of_samples p) (values_of_samples c')"
    by (simp add: sq_dist_def values_of_samples_def d_def)
  ultimately show ?case
    using st(1) by (simp add: c sample_point_def)
qed

lemma computed_dist_samples:
  assumes "length p = length c" and "length p < 2 ^ 36"
  shows "computed_dist (sample_point p) (sample_point c) =
         Num (sq_dist (values_of_samples p) (values_of_samples c))"
proof -
  have "int (length p) < 2 ^ 36" using assms(2) by simp
  then have "0 + 65025 * int (length p) < 2 ^ 53" by simp
  from dist_loop_samples [OF assms(1) _ this] show ?thesis by (simp add: computed_dist_def)
qed

lemma sq_dist_nonneg: "0 \<le> sq_dist p c"
  unfolding sq_dist_def by (rule sum_list_nonneg) auto

lemma sq_dist_self: "sq_dist p p = 0"
  by (induction p) (simp_all add: sq_dist_def)

lemma sq_dist_pos:
  "length p = length c \<Longrightarrow> p \<noteq> c \<Longrightarrow> 0 < sq_dist p c"
proof (induction p arbitrary: c)
  case Nil
  then show ?case by simp
next
  case (Cons x p)
  then obtain y c' where c: "c = y # c'" by (cases c) auto
  have step: "sq_dist (x # p) c = (x - y) * (x - y) + sq_dist p c'"
    by (simp add: sq_dist_def c)
  show ?case
  proof (cases "x = y")
    case True
    with Cons c have "0 < sq_dist p c'" by auto
    with True step show ?thesis by simp
  next
    case False
    then have "0 < (x - y) * (x - y)" by (auto simp: zero_less_mult_iff)
    with sq_dist_nonneg [of p c'] step show ?thesis by linarith
  qed
qed

lemma values_of_samples_inj: "values_of_samples a = values_of_samples b \<Longrightarrow> a = b"
proof (induction a arbitrary: b)
  case Nil
  then show ?case by (simp add: values_of_samples_def)
next
  case (Cons x a)
  then obtain y b' where b: "b = y # b'" by (cases b) (auto simp: values_of_samples_def)
  from Cons.prems b have "(unsigned x :: real) = unsigned y"
    "values_of_samples a = values_of_samples b'"
    by (simp_all add: values_of_samples_def)
  then have "x = y" "a = b'"
    using Cons.IH by (simp_all add: word_eq_iff_unsigned [where ?'a = real])
  with b show ?case by simp
qed

lemma values_of_samples_length: "length (values_of_samples a) = length a"
  by (simp add: values_of_samples_def)

lemma sample_point_inj: "sample_point a = sample_point b \<Longrightarrow> a = b"
proof -
  assume "sample_point a = sample_point b"
  then have "map (\<lambda>v. case v of Num x \<Rightarrow> x | _ \<Rightarrow> 0) (sample_point a)
           = map (\<lambda>v. case v of Num x \<Rightarrow> x | _ \<Rightarrow> 0) (sample_point b)" by simp
  then have "values_of_samples a = values_of_samples b"
    by (simp add: sample_point_def values_of_samples_def of_uint8_def comp_def)
  then show ?thesis by (rule values_of_samples_inj)
qed

lemma elems_equal_samples:
  "length p = length c \<Longrightarrow> elems_equal (sample_point p) (sample_point c) \<longleftrightarrow> p = c"
proof (induction p arbitrary: c)
  case Nil
  then show ?case by (simp add: sample_point_def)
next
  case (Cons x p)
  then obtain y c' where c: "c = y # c'" by (cases c) auto
  with Cons show ?case
    by (auto simp: sample_point_def of_uint8_def word_eq_iff_unsigned [where ?'a = real])
qed

lemma isArrayEqual_samples:
  "length p = length c \<Longrightarrow>
   isArrayEqual (Some (sample_point p)) (Some (sample_point c)) = Inr (p = c)"
  using elems_equal_samples [of p c] by (simp add: sample_point_def)

subsection \<open>The mean of equal points\<close>

lemma round64_sample: "round64 (unsigned (w :: 8 word)) = Num (unsigned w)"
proof -
  have "round64 (real (unat w)) = Num (real (unat w))"
    using unat_sample_less [of w] by (intro round64_of_nat) simp
  then show ?thesis by simp
qed

lemma round64_zero: "round64 0 = Num 0"
  by (simp add: round64_exact)

lemma running_update_first:
  "running_update (replicate (length p) (Num 0)) (sample_point p) (Suc 0) = sample_point p"
  by (induction p) (simp_all add: sample_point_def of_uint8_def round64_sample)

lemma running_update_same:
  "running_update (sample_point p) (sample_point p) n = sample_point p"
  by (induction p) (simp_all add: sample_point_def of_uint8_def round64_sample round64_zero)

lemma centroid_loop_same:
  "\<forall>q \<in> set ps. q = sample_point p \<Longrightarrow> centroid_loop (sample_point p) ps i = sample_point p"
  by (induction ps arbitrary: i) (simp_all add: running_update_same)

lemma centroid_same:
  assumes "cluster \<noteq> []" and "\<forall>q \<in> set cluster. q = sample_point p"
  shows "centroid cluster = sample_point p"
proof -
  obtain rest where c: "cluster = sample_point p # rest" "\<forall>q \<in> set rest. q = sample_point p"
    using assms by (cases cluster) auto
  have l: "length (sample_point p) = length p" by (simp add: sample_point_def)
  have "centroid cluster =
      centroid_loop (running_update (replicate (length p) (Num 0)) (sample_point p) 1) rest 1"
    by (simp add: centroid_def c l)
  then show ?thesis by (simp add: running_update_first centroid_loop_same [OF c(2)])
qed

subsection \<open>A run that never converges\<close>

lemma random_step_parity: "even (random_step s) \<longleftrightarrow> odd s"
proof -
  have "(2::nat) dvd 233280" by simp
  then have "even ((s * 9301 + 49297) mod 233280) \<longleftrightarrow> even (s * 9301 + 49297)"
    by (rule dvd_mod_iff)
  then show ?thesis by (simp add: random_step_def)
qed

lemma parity_dataset_nth:
  "i < parity_size \<Longrightarrow> parity_dataset a b ! i = (if odd i then a else b)"
  by (simp add: parity_dataset_def)

lemma parity_dataset_length: "length (parity_dataset a b) = parity_size"
  by (simp add: parity_dataset_def)

lemma parity_dataset_set: "set (parity_dataset a b) = {a, b}"
proof
  show "set (parity_dataset a b) \<subseteq> {a, b}" by (auto simp: parity_dataset_def)
  have "parity_dataset a b ! 1 \<in> set (parity_dataset a b)"
    "parity_dataset a b ! 0 \<in> set (parity_dataset a b)"
    by (rule nth_mem, simp add: parity_dataset_length parity_size_def)+
  then show "{a, b} \<subseteq> set (parity_dataset a b)"
    by (simp add: parity_dataset_nth parity_size_def)
qed

lemma parity_drawn_index:
  assumes "s < 233280"
  shows "\<lfloor>binary64 (random_value s * real parity_size)\<rfloor> = int s"
proof -
  define q where "q = real s * real parity_size / 233280"
  have q: "q = real s + real s / 233280" by (simp add: q_def parity_size_def field_simps)
  have s: "real s \<le> 233279" using assms by simp
  have "real_of_int (int s) \<le> q" unfolding q by simp
  moreover have "q < real_of_int (int s) + 1" unfolding q using s by simp
  ultimately have fl: "\<lfloor>q\<rfloor> = int s" by (rule floor_unique)
  have q0: "0 \<le> q" by (simp add: q_def)
  have qu: "q < 233280" unfolding q using s by simp
  have "q / 2 ^ 52 \<le> real s * (1 + 1 / 233280) / 2 ^ 52" by (simp add: q field_simps)
  also have "\<dots> \<le> real s / 233280" by (simp add: field_simps)
  finally have "real s \<le> q * (1 - 1 / 2 ^ 52)" unfolding q by (simp add: algebra_simps)
  then have lo: "real_of_int \<lfloor>q\<rfloor> \<le> q * (1 - 1 / 2 ^ 52)" by (simp add: fl)
  have "q / 2 ^ 51 < 233280 / 2 ^ 51" using qu by simp
  moreover have "q \<le> real s + 233279 / 233280" unfolding q using s by simp
  ultimately have "q * (1 + 1 / 2 ^ 51) < real s + 1" by (simp add: algebra_simps)
  then have hi: "q * (1 + 1 / 2 ^ 51) < real_of_int \<lfloor>q\<rfloor> + 1" by (simp add: fl)
  from drawn_index [of s parity_size, folded q_def, OF lo hi] fl show ?thesis by simp
qed

lemma parity_draw_point:
  "draw_point (parity_dataset a b) s = (Some (if even s then a else b), random_step s)"
proof -
  let ?s = "random_step s"
  have s: "?s < 233280" by (rule random_step_less)
  have "?s < parity_size" using s by (simp add: parity_size_def)
  then have "js_get (parity_dataset a b) (int ?s) = Some (if odd ?s then a else b)"
    by (simp add: js_get_def parity_dataset_length parity_dataset_nth)
  then show ?thesis
    by (simp add: draw_point_def Let_def parity_dataset_length parity_drawn_index [OF s]
        random_step_parity)
qed

lemma nn_loop_three:
  assumes len: "length a = length b" and neq: "a \<noteq> b" and small: "length a < 2 ^ 36"
    and c: "c = a \<or> c = b"
  shows "nearestNeighbor (sample_point a)
           [Some (sample_point a), Some (sample_point b), Some (sample_point c)] = Inr 0"
    and "nearestNeighbor (sample_point b)
           [Some (sample_point a), Some (sample_point b), Some (sample_point c)] = Inr 1"
proof -
  let ?v = values_of_samples
  have d: "dist_loop (Num 0) (sample_point p) (sample_point q) = Num (sq_dist (?v p) (?v q))"
    if "p \<in> {a, b}" "q \<in> {a, b}" for p q
    using computed_dist_samples [of p q] that len small c by (auto simp: computed_dist_def)
  have vneq: "?v a \<noteq> ?v b" using neq values_of_samples_inj by blast
  have vlen: "length (?v a) = length (?v b)" using len by (simp add: values_of_samples_length)
  have ab: "0 < sq_dist (?v a) (?v b)" "0 < sq_dist (?v b) (?v a)"
    using sq_dist_pos [of "?v a" "?v b"] sq_dist_pos [of "?v b" "?v a"] vlen vneq by auto
  have ac: "\<not> sq_dist (?v a) (?v c) < 0" "\<not> sq_dist (?v b) (?v c) < 0"
    using sq_dist_nonneg [of "?v a" "?v c"] sq_dist_nonneg [of "?v b" "?v c"] by auto
  have cc: "c \<in> {a, b}" using c by auto
  show "nearestNeighbor (sample_point a)
           [Some (sample_point a), Some (sample_point b), Some (sample_point c)] = Inr 0"
    using ab ac cc by (simp add: nearestNeighbor_def d sq_dist_self)
  show "nearestNeighbor (sample_point b)
           [Some (sample_point a), Some (sample_point b), Some (sample_point c)] = Inr 1"
    using ab ac cc by (simp add: nearestNeighbor_def d sq_dist_self)
qed

lemma assign_points_two:
  assumes len: "length a = length b" and neq: "a \<noteq> b" and small: "length a < 2 ^ 36"
    and c: "c = a \<or> c = b"
    and ps: "set ps \<subseteq> {sample_point a, sample_point b}"
  shows "assign_points ps [Some (sample_point a), Some (sample_point b), Some (sample_point c)] [A, B, E] =
         Inr [A @ filter (\<lambda>p. p = sample_point a) ps, B @ filter (\<lambda>p. p \<noteq> sample_point a) ps, E]"
  using ps
proof (induction ps arbitrary: A B)
  case Nil
  then show ?case by simp
next
  case (Cons p ps)
  let ?cs = "[Some (sample_point a), Some (sample_point b), Some (sample_point c)]"
  have inj: "sample_point a \<noteq> sample_point b" using neq sample_point_inj by blast
  from Cons.prems have "p = sample_point a \<or> p = sample_point b" by auto
  then show ?case
  proof
    assume p: "p = sample_point a"
    have "assign_points (p # ps) ?cs [A, B, E] = assign_points ps ?cs [A @ [p], B, E]"
      by (simp add: p nn_loop_three(1) [OF len neq small c] js_get_def)
    also have "\<dots> = Inr [(A @ [p]) @ filter (\<lambda>p. p = sample_point a) ps,
                           B @ filter (\<lambda>p. p \<noteq> sample_point a) ps, E]"
      using Cons.prems by (intro Cons.IH) auto
    finally show ?thesis by (simp add: p)
  next
    assume p: "p = sample_point b"
    have "assign_points (p # ps) ?cs [A, B, E] = assign_points ps ?cs [A, B @ [p], E]"
      by (simp add: p nn_loop_three(2) [OF len neq small c] js_get_def)
    also have "\<dots> = Inr [A @ filter (\<lambda>p. p = sample_point a) ps,
                           (B @ [p]) @ filter (\<lambda>p. p \<noteq> sample_point a) ps, E]"
      using Cons.prems by (intro Cons.IH) auto
    finally show ?thesis using inj by (simp add: p)
  qed
qed

lemma parity_round:
  assumes len: "length a = length b" and neq: "a \<noteq> b" and small: "length a < 2 ^ 36"
    and c: "c = (if even s then b else a)"
  shows "kMeans_round (parity_dataset (sample_point a) (sample_point b)) 3
           [Some (sample_point a), Some (sample_point b), Some (sample_point c)] s =
         Inr ([Some (sample_point a), Some (sample_point b),
               Some (sample_point (if even s then a else b))],
              False, random_step s)"
proof -
  let ?a = "sample_point a" and ?b = "sample_point b"
  let ?D = "parity_dataset ?a ?b"
  let ?A = "filter (\<lambda>p. p = ?a) ?D" and ?B = "filter (\<lambda>p. p \<noteq> ?a) ?D"
  define rd where "rd = (if even s then a else b)"
  have inj: "?a \<noteq> ?b" using neq sample_point_inj by blast
  have c': "c = a \<or> c = b" using c by simp
  have set: "set ?D = {?a, ?b}" by (rule parity_dataset_set)
  have assign: "assign_points ?D [Some ?a, Some ?b, Some (sample_point c)] [[], [], []] = Inr [?A, ?B, []]"
    using assign_points_two [OF len neq small c', of ?D "[]" "[]" "[]"] set by simp
  have A: "?A \<noteq> []" "\<forall>q \<in> set ?A. q = ?a"
    using set by (auto simp: filter_empty_conv)
  have B: "?B \<noteq> []" "\<forall>q \<in> set ?B. q = ?b"
    using set inj by (auto simp: filter_empty_conv)
  have cA: "centroid ?A = ?a" by (rule centroid_same [OF A])
  have cB: "centroid ?B = ?b" by (rule centroid_same [OF B])
  have e1: "isArrayEqual (Some ?a) (Some ?a) = Inr True"
    and e2: "isArrayEqual (Some ?b) (Some ?b) = Inr True"
    by (simp_all add: isArrayEqual_samples del: isArrayEqual.simps)
  have "rd \<noteq> c" "length rd = length c" using c neq len by (auto simp: rd_def)
  then have e3: "isArrayEqual (Some (sample_point rd)) (Some (sample_point c)) = Inr False"
    by (simp add: isArrayEqual_samples del: isArrayEqual.simps)
  have draw: "draw_point ?D s = (Some (sample_point rd), random_step s)"
    by (simp add: parity_draw_point rd_def)
  have u3: "update_loop ?D [[]] [Some (sample_point c)] True s =
        Inr ([Some (sample_point rd)], False, random_step s)"
    unfolding update_loop.simps draw using e3 by simp
  have u2: "update_loop ?D [?B, []] [Some ?b, Some (sample_point c)] True s =
        Inr ([Some ?b, Some (sample_point rd)], False, random_step s)"
    unfolding update_loop.simps(1) [of ?D ?B] using B(1) cB e2 u3 by simp
  have upd: "update_loop ?D [?A, ?B, []] [Some ?a, Some ?b, Some (sample_point c)] True s =
        Inr ([Some ?a, Some ?b, Some (sample_point rd)], False, random_step s)"
    unfolding update_loop.simps(1) [of ?D ?A] using A(1) cA e1 u2 by simp
  have rep: "replicate (nat 3) [] = [[], [], []::point list]"
    by (simp add: numeral_3_eq_3)
  show ?thesis
    unfolding kMeans_round_def rep rd_def [symmetric] using assign upd by simp
qed

lemma parity_diverges:
  assumes len: "length a = length b" and neq: "a \<noteq> b" and small: "length a < 2 ^ 36"
  shows "kMeans (parity_dataset (sample_point a) (sample_point b)) (Some 3) = None"
proof -
  let ?a = "sample_point a" and ?b = "sample_point b"
  let ?D = "parity_dataset ?a ?b"
  let ?s1 = "random_step 0"
  let ?s2 = "random_step ?s1"
  let ?s3 = "random_step ?s2"
  have par: "odd ?s1" "even ?s2" "odd ?s3"
    by (simp_all add: random_step_parity)
  have init: "init_centroids 3 ?D 0 = ([Some ?a, Some ?b, Some ?a], ?s3)"
    using par by (simp add: numeral_3_eq_3 parity_draw_point random_step_parity)
  let ?I = "\<lambda>cs (s::nat). cs = [Some ?a, Some ?b, Some (sample_point (if even s then b else a))]"
  have "kMeans_while ?D 3 [Some ?a, Some ?b, Some ?a] ?s3 = None"
  proof (rule ccontr)
    assume "kMeans_while ?D 3 [Some ?a, Some ?b, Some ?a] ?s3 \<noteq> None"
    then obtain r where ret: "kMeans_while ?D 3 [Some ?a, Some ?b, Some ?a] ?s3 = Some r" by blast
    show False
    proof (rule kMeans_while_rule [OF ret, where I = ?I and R = "\<lambda>r. False"])
      show "?I [Some ?a, Some ?b, Some ?a] ?s3" using par by simp
    next
      fix cs s
      assume "?I cs s"
      then have "kMeans_round ?D 3 cs s =
         Inr ([Some ?a, Some ?b, Some (sample_point (if even s then a else b))], False, random_step s)"
        using parity_round [OF len neq small, of "if even s then b else a" s] by simp
      moreover have "?I [Some ?a, Some ?b, Some (sample_point (if even s then a else b))] (random_step s)"
        by (simp add: random_step_parity)
      ultimately show "case kMeans_round ?D 3 cs s of
          Inl e \<Rightarrow> False
        | Inr (cs', conv, s') \<Rightarrow> if conv then False else ?I cs' s'"
        by simp
    qed
  qed
  then show ?thesis by (simp add: kMeans_def init)
qed

subsection \<open>Evaluating the model on concrete inputs\<close>

lemma init_centroids_numeral:
  "init_centroids (numeral n) dataset seed =
     (let (c, seed1) = draw_point dataset seed;
          (cs, seed2) = init_centroids (pred_numeral n) dataset seed1
      in (c # cs, seed2))"
  by (simp add: numeral_eq_Suc)

lemma replicate_numeral_Cons:
  "replicate (numeral n) x = x # replicate (pred_numeral n) x"
  by (simp add: numeral_eq_Suc)

lemma draw_point_single: "draw_point [p] s = (Some p, random_step s)"
  using draw_point_in_dataset [of "[p]" s] by simp

lemmas kMeans_eval = init_centroids_numeral replicate_numeral_Cons
  kMeans_def kMeans_while.simps kMeans_round_def js_get_def nearestNeighbor_def centroid_def
  round64_exact

lemma kMeans_one_point_two:
  "kMeans [[Num 0]] (Some 2) = Some (Inr [Some [Num 0], Some [Num 0]])"
  by (simp add: kMeans_eval draw_point_single)

lemma draw_point_four:
  "draw_point [p0, p1, p2, p3] 0 = (Some p0, 49297)"
  "draw_point [p0, p1, p2, p3] 49297 = (Some p2, 165494)"
proof -
  have i: "\<lfloor>binary64 (random_value 49297 * 4)\<rfloor> = 0"
    "\<lfloor>binary64 (random_value 165494 * 4)\<rfloor> = 2"
    using drawn_index [of 49297 4] drawn_index [of 165494 4] by simp_all
  have "draw_point [p0, p1, p2, p3] 0 =
      (js_get [p0, p1, p2, p3] \<lfloor>binary64 (random_value 49297 * 4)\<rfloor>, 49297)"
    by (simp add: draw_point_def random_step_def)
  then show "draw_point [p0, p1, p2, p3] 0 = (Some p0, 49297)"
    unfolding i by (simp add: js_get_def)
  have "draw_point [p0, p1, p2, p3] 49297 =
      (js_get [p0, p1, p2, p3] \<lfloor>binary64 (random_value 165494 * 4)\<rfloor>, 165494)"
    by (simp add: draw_point_def random_step_def)
  then show "draw_point [p0, p1, p2, p3] 49297 = (Some p2, 165494)"
    unfolding i by (simp add: js_get_def)
qed

lemma kMeans_four_points_two:
  "kMeans [[Num 0, Num 0, Num 0, Num 255], [Num 10, Num 10, Num 10, Num 255],
           [Num 250, Num 250, Num 250, Num 255], [Num 254, Num 254, Num 254, Num 255]] (Some 2)
   = Some (Inr [Some [Num 5, Num 5, Num 5, Num 255],
                Some [Num 252, Num 252, Num 252, Num 255]])"
  by (simp add: kMeans_eval draw_point_four)

subsection \<open>Invalid input\<close>

lemma kMeans_zero_nonempty:
  "kMeans (point # dataset) (Some 0) = Some (Inl TypeError)"
  by (simp add: kMeans_def kMeans_while.simps kMeans_round_def nearestNeighbor_def js_get_def)

lemma kMeans_negative:
  "k < 0 \<Longrightarrow> kMeans dataset (Some k) = Some (Inl RangeError)"
  by (simp add: kMeans_def kMeans_while.simps kMeans_round_def split: prod.splits)

lemma draw_point_empty: "draw_point [] s = (None, random_step s)"
  by (simp add: draw_point_def js_get_def binary64_zero)

lemma init_centroids_empty:
  "fst (init_centroids n [] s) = replicate n None"
  by (induction n arbitrary: s) (simp_all add: draw_point_empty split_beta)

lemma kMeans_empty_positive:
  assumes "1 \<le> k"
  shows "kMeans [] (Some k) = Some (Inl TypeError)"
proof -
  obtain n where n: "nat k = Suc n" using assms by (cases "nat k") auto
  obtain cs s where init: "init_centroids (nat k) [] 0 = (cs, s)"
    by (cases "init_centroids (nat k) [] 0") auto
  then have cs: "cs = None # replicate n None"
    using init_centroids_empty [of "nat k" 0] n by simp
  have "kMeans_round [] k cs s = Inl TypeError"
    using assms by (simp add: kMeans_round_def cs n draw_point_empty)
  then show ?thesis
    by (simp add: kMeans_def init kMeans_while.simps)
qed

lemma update_loop_converged:
  "update_loop dataset clusters olds conv s = Inr (cs, True, s') \<Longrightarrow>
   conv \<and> (\<forall>i < length cs. isArrayEqual (cs ! i) (olds ! i) = Inr True)"
proof (induction clusters arbitrary: olds conv s cs)
  case Nil
  then show ?case by simp
next
  case (Cons cluster clusters)
  show ?case
  proof (cases olds)
    case Nil
    with Cons.prems show ?thesis by simp
  next
    case (Cons old rest)
    obtain ci s1 where draw:
      "(if cluster \<noteq> [] then (Some (centroid cluster), s) else draw_point dataset s) = (ci, s1)"
      by (cases "if cluster \<noteq> [] then (Some (centroid cluster), s) else draw_point dataset s") auto
    from Cons.prems obtain conv1 cs' where
      eq: "(if conv then isArrayEqual ci old else Inr False) = Inr conv1"
      and rec: "update_loop dataset clusters rest conv1 s1 = Inr (cs', True, s')"
      and cs: "cs = ci # cs'"
      unfolding Cons update_loop.simps draw
      by (auto split: sum.splits prod.splits)
    from Cons.IH [OF rec] have conv1: conv1
      and rest: "\<forall>i < length cs'. isArrayEqual (cs' ! i) (rest ! i) = Inr True" by auto
    from eq conv1 have "conv \<and> isArrayEqual ci old = Inr True"
      by (cases conv) auto
    with rest cs Cons show ?thesis by (auto simp: nth_Cons')
  qed
qed

subsection \<open>A square that overflows\<close>

text \<open>
  The square of \<open>2 ^ 600\<close> is out of range: the distance of the points \<open>2 ^ 600\<close> and 0
  is \<^verbatim>\<open>Infinity\<close>, no candidate is selected, and \<^verbatim>\<open>kMeans\<close> throws at
  \<^verbatim>\<open>clusters[-1].push\<close>.
\<close>

lemma round64_power_of_two:
  assumes "n < 1024"
  shows "round64 (2 ^ n) = Num (2 ^ n)" and "round64 (- (2 ^ n)) = Num (- (2 ^ n))"
proof -
  have b: "binary64 (2 ^ n) = 2 ^ n"
    using binary64_exact [of 1 "int n"] by (simp add: powr_realpow)
  have lo: "\<not> \<bar>(2::real) ^ n\<bar> < 1 / 2 ^ 1022"
  proof -
    have "1 / (2::real) ^ 1022 \<le> 1" by (simp add: field_simps)
    also have "\<dots> \<le> 2 ^ n" by simp
    finally show ?thesis by simp
  qed
  have hi: "(2::real) ^ n < 2 ^ 1024" using assms by (intro power_strict_increasing) simp_all
  have h0: "0 < (2::real) ^ n" by simp
  show "round64 (2 ^ n) = Num (2 ^ n)"
    using lo hi by (simp add: round64_def Let_def b not_le del: power_strict_increasing_iff)
  show "round64 (- (2 ^ n)) = Num (- (2 ^ n))"
    using lo hi h0 by (simp add: round64_def Let_def b binary64_minus del: power_strict_increasing_iff)
qed

lemma round64_overflow:
  assumes "1024 \<le> n"
  shows "round64 (2 ^ n) = PInf"
proof -
  have b: "binary64 (2 ^ n) = 2 ^ n"
    using binary64_exact [of 1 "int n"] by (simp add: powr_realpow)
  have lo: "\<not> \<bar>(2::real) ^ n\<bar> < 1 / 2 ^ 1022"
  proof -
    have "1 / (2::real) ^ 1022 \<le> 1" by (simp add: field_simps)
    also have "\<dots> \<le> 2 ^ n" by simp
    finally show ?thesis by simp
  qed
  have hi: "(2::real) ^ 1024 \<le> 2 ^ n" using assms by (intro power_increasing) simp_all
  show ?thesis using lo hi by (simp add: round64_def Let_def b del: power_increasing_iff)
qed

lemma computed_dist_overflow:
  "computed_dist [Num 0] [Num (2 ^ 600)] = PInf"
  "computed_dist [Num (2 ^ 600)] [Num 0] = PInf"
  "computed_dist [Num (2 ^ 600)] [Num (2 ^ 600)] = Num 0"
proof -
  define B :: real where "B = 2 ^ 600"
  have r: "round64 B = Num B" "round64 (- B) = Num (- B)"
    unfolding B_def by (rule round64_power_of_two, simp)+
  have "B * B = 2 ^ 1200" by (simp add: B_def flip: power_add)
  then have sq: "round64 (B * B) = PInf" using round64_overflow [of 1200] by simp
  have "computed_dist [Num 0] [Num B] = PInf" "computed_dist [Num B] [Num 0] = PInf"
    "computed_dist [Num B] [Num B] = Num 0"
    by (simp_all add: computed_dist_def r sq round64_zero)
  then show "computed_dist [Num 0] [Num (2 ^ 600)] = PInf"
    "computed_dist [Num (2 ^ 600)] [Num 0] = PInf"
    "computed_dist [Num (2 ^ 600)] [Num (2 ^ 600)] = Num 0"
    by (simp_all only: B_def)
qed

lemma nearestNeighbor_overflow:
  "nearestNeighbor [Num (2 ^ 600)] [Some [Num 0]] = Inr (- 1)"
  using computed_dist_overflow(2) by (simp add: nearestNeighbor_def computed_dist_def)

lemma kMeans_overflow:
  "kMeans [[Num (2 ^ 600)], [Num 0]] (Some 1) = Some (Inl TypeError)"
proof -
  have i: "\<lfloor>binary64 (random_value 49297 * 2)\<rfloor> = 0"
    using drawn_index [of 49297 2] by simp
  have "draw_point [[Num (2 ^ 600)], [Num 0]] 0 =
      (js_get [[Num (2 ^ 600)], [Num 0]] \<lfloor>binary64 (random_value 49297 * 2)\<rfloor>, 49297)"
    by (simp add: draw_point_def random_step_def del: power_numeral)
  then have draw: "draw_point [[Num (2 ^ 600)], [Num 0]] 0 = (Some [Num (2 ^ 600)], 49297)"
    unfolding i by (simp add: js_get_def del: power_numeral)
  have n1: "nearestNeighbor [Num (2 ^ 600)] [Some [Num (2 ^ 600)]] = Inr 0"
    using computed_dist_overflow(3) by (simp add: nearestNeighbor_def computed_dist_def)
  have n2: "nearestNeighbor [Num 0] [Some [Num (2 ^ 600)]] = Inr (- 1)"
    using computed_dist_overflow(1) by (simp add: nearestNeighbor_def computed_dist_def)
  have "kMeans_round [[Num (2 ^ 600)], [Num 0]] 1 [Some [Num (2 ^ 600)]] 49297 = Inl TypeError"
    by (simp add: kMeans_round_def n1 n2 js_get_def del: power_numeral)
  then show ?thesis
    by (simp add: kMeans_def draw kMeans_while.simps del: power_numeral)
qed

subsection \<open>The number of centroids\<close>

lemma assign_points_length:
  "assign_points ps centroids clusters = Inr cls \<Longrightarrow> length cls = length clusters"
proof (induction ps arbitrary: clusters)
  case Nil
  then show ?case by simp
next
  case (Cons p ps)
  from Cons.prems obtain r cluster where
    "assign_points ps centroids (clusters[nat r := cluster @ [p]]) = Inr cls"
    by (auto split: sum.splits option.splits)
  from Cons.IH [OF this] show ?case by simp
qed

lemma update_loop_length:
  "update_loop dataset clusters olds conv0 s = Inr (cs, conv, s') \<Longrightarrow>
   length clusters = length olds \<Longrightarrow> length cs = length olds"
proof (induction clusters arbitrary: olds conv0 s cs)
  case Nil
  then show ?case by simp
next
  case (Cons cluster clusters)
  then obtain old rest where olds: "olds = old # rest" by (cases olds) auto
  obtain ci s1 where draw:
    "(if cluster \<noteq> [] then (Some (centroid cluster), s) else draw_point dataset s) = (ci, s1)"
    by (cases "if cluster \<noteq> [] then (Some (centroid cluster), s) else draw_point dataset s") auto
  from Cons.prems(1) obtain conv1 cs1 where
    rec: "update_loop dataset clusters rest conv1 s1 = Inr (cs1, conv, s')"
    and cs: "cs = ci # cs1"
    unfolding olds update_loop.simps draw
    by (auto split: sum.splits if_splits)
  from Cons.IH [OF rec] Cons.prems(2) olds cs show ?case by simp
qed

lemma kMeans_length:
  assumes "kMeans dataset (Some k) = Some (Inr pal)"
  shows "length pal = nat k"
proof -
  obtain cs0 s0 where init: "init_centroids (nat k) dataset 0 = (cs0, s0)"
    by (cases "init_centroids (nat k) dataset 0") auto
  have "length (fst (init_centroids n dataset s)) = n" for n s
    by (induction n arbitrary: s) (simp_all add: split_beta)
  from this [of "nat k" 0] init have cs0: "length cs0 = nat k" by simp
  have ret: "kMeans_while dataset k cs0 s0 = Some (Inr pal)"
    using assms init by (simp add: kMeans_def)
  let ?R = "\<lambda>r :: js_error + palette. \<forall>cs. r = Inr cs \<longrightarrow> length cs = nat k"
  have "?R (Inr pal)"
  proof (rule kMeans_while_rule [OF ret, where I = "\<lambda>cs s. length cs = nat k" and R = ?R])
    show "length cs0 = nat k" by (rule cs0)
  next
    fix cs :: palette and s :: nat
    assume len: "length cs = nat k"
    show "case kMeans_round dataset k cs s of
        Inl e \<Rightarrow> ?R (Inl e)
      | Inr (cs', conv, s') \<Rightarrow> if conv then ?R (Inr cs') else length cs' = nat k"
    proof (cases "kMeans_round dataset k cs s")
      case (Inl e)
      then show ?thesis by simp
    next
      case (Inr t)
      obtain cs' conv s' where t: "t = (cs', conv, s')" by (cases t) auto
      from Inr t obtain cls where
        cls: "assign_points dataset cs (replicate (nat k) []) = Inr cls"
        and upd: "update_loop dataset cls cs True s = Inr (cs', conv, s')"
        by (auto simp: kMeans_round_def split: if_splits sum.splits)
      from assign_points_length [OF cls] have "length cls = length cs" using len by simp
      from update_loop_length [OF upd this] len Inr t show ?thesis by simp
    qed
  qed
  then show ?thesis by simp
qed

subsection \<open>A sum that is rounded\<close>

lemma round64_2_54: "round64 18014398509481984 = Num 18014398509481984"
proof -
  have b: "binary64 18014398509481984 = 18014398509481984"
    using binary64_exact [of 1 54] by (simp add: powr_numeral)
  have "(18014398509481984::real) < 2 ^ 1024"
  proof -
    have "(18014398509481984::real) = 2 ^ 54" by simp
    also have "\<dots> < 2 ^ 1024" by (rule power_strict_increasing) simp_all
    finally show ?thesis .
  qed
  moreover have "\<not> \<bar>18014398509481984::real\<bar> < 1 / 2 ^ 1022"
  proof -
    have "1 / (2::real) ^ 1022 \<le> 1" by (simp add: field_simps)
    then show ?thesis by simp
  qed
  ultimately show ?thesis by (simp add: round64_def b Let_def)
qed

lemma binary64_2_54_1: "binary64 18014398509481985 = 18014398509481984"
proof -
  define x :: real where "x = 18014398509481985"
  have p54: "(2::real) powr of_int 54 \<le> x" by (simp add: x_def powr_numeral)
  have p55: "x < (2::real) powr (of_int 54 + 1)" by (simp add: x_def powr_numeral)
  have x0: "0 < x" by (simp add: x_def)
  have L: "\<lfloor>log 2 x\<rfloor> = 54" by (rule floor_log2_eq [OF p54 p55])
  have u: "(2::real) powr 2 = 4" by (simp add: powr_numeral)
  have "real_of_int 4503599627370496 \<le> x / 4" by (simp add: x_def)
  moreover have "x / 4 < real_of_int 4503599627370496 + 1" by (simp add: x_def)
  ultimately have fl: "\<lfloor>x / 4\<rfloor> = 4503599627370496" by (rule floor_unique)
  have "round_half_even (x / 4) = 4503599627370496"
    unfolding round_half_even_def Let_def fl by (simp add: x_def)
  then have "binary64 x = of_int 4503599627370496 * 4"
    using x0 by (simp add: binary64_def Let_def L u)
  then show ?thesis by (simp add: x_def)
qed

lemma round64_2_54_1: "round64 18014398509481985 = Num 18014398509481984"
proof -
  have "(18014398509481984::real) < 2 ^ 1024"
  proof -
    have "(18014398509481984::real) = 2 ^ 54" by simp
    also have "\<dots> < 2 ^ 1024" by (rule power_strict_increasing) simp_all
    finally show ?thesis .
  qed
  moreover have "\<not> \<bar>18014398509481985::real\<bar> < 1 / 2 ^ 1022"
  proof -
    have "1 / (2::real) ^ 1022 \<le> 1" by (simp add: field_simps)
    then show ?thesis by simp
  qed
  ultimately show ?thesis by (simp add: round64_def binary64_2_54_1 Let_def)
qed

lemma nearestNeighbor_rounded_tie:
  "nearestNeighbor [Num 0, Num 0] [Some [Num 134217728, Num 1], Some [Num 134217728, Num 0]] = Inr 0"
  by (simp add: nearestNeighbor_def round64_exact round64_2_54 round64_2_54_1)

lemma sample_palette_as_map: "sample_palette pal = map Some (map sample_point pal)"
  by (simp add: sample_palette_def sample_point_def)

lemma nearestNeighbor_samples_argmin:
  assumes "pal \<noteq> []" and "\<forall>c \<in> set pal. length c = length px" and "length px < 2 ^ 36"
  shows "\<exists>m < length pal.
           nearestNeighbor (sample_point px) (sample_palette pal) = Inr (int m) \<and>
           (\<forall>j < length pal. sq_dist (values_of_samples px) (values_of_samples (pal ! m))
                           \<le> sq_dist (values_of_samples px) (values_of_samples (pal ! j))) \<and>
           (\<forall>j < m. sq_dist (values_of_samples px) (values_of_samples (pal ! m))
                   < sq_dist (values_of_samples px) (values_of_samples (pal ! j)))"
proof -
  let ?v = values_of_samples
  let ?cs = "map sample_point pal"
  have cd: "computed_dist (sample_point px) (?cs ! j) = Num (sq_dist (?v px) (?v (pal ! j)))"
    if "j < length pal" for j
    using that assms(2,3) computed_dist_samples [of px "pal ! j"] by simp
  have "\<not> (\<forall>j < length ?cs. \<not> js_less (computed_dist (sample_point px) (?cs ! j)) PInf)"
    using assms(1) cd [of 0] by auto
  with nearestNeighbor_argmin [of "sample_point px" ?cs]
  obtain m where m: "m < length ?cs"
    "nearestNeighbor (sample_point px) (map Some ?cs) = Inr (int m)"
    "\<forall>j < m. \<not> js_le (computed_dist (sample_point px) (?cs ! j))
                       (computed_dist (sample_point px) (?cs ! m))"
    "\<forall>j < length ?cs. \<not> js_less (computed_dist (sample_point px) (?cs ! j))
                       (computed_dist (sample_point px) (?cs ! m))"
    by blast
  have "m < length pal" using m(1) by simp
  moreover have "nearestNeighbor (sample_point px) (sample_palette pal) = Inr (int m)"
    using m(2) by (simp add: sample_palette_as_map)
  moreover have "\<forall>j < length pal. sq_dist (?v px) (?v (pal ! m)) \<le> sq_dist (?v px) (?v (pal ! j))"
  proof (intro allI impI)
    fix j assume j: "j < length pal"
    with m(4) have "\<not> js_less (computed_dist (sample_point px) (?cs ! j))
                       (computed_dist (sample_point px) (?cs ! m))" by simp
    then show "sq_dist (?v px) (?v (pal ! m)) \<le> sq_dist (?v px) (?v (pal ! j))"
      using cd [OF j] cd [OF \<open>m < length pal\<close>] by simp
  qed
  moreover have "\<forall>j < m. sq_dist (?v px) (?v (pal ! m)) < sq_dist (?v px) (?v (pal ! j))"
  proof (intro allI impI)
    fix j assume j: "j < m"
    then have jl: "j < length pal" using \<open>m < length pal\<close> by simp
    from m(3) j have "\<not> js_le (computed_dist (sample_point px) (?cs ! j))
                       (computed_dist (sample_point px) (?cs ! m))" by simp
    then show "sq_dist (?v px) (?v (pal ! m)) < sq_dist (?v px) (?v (pal ! j))"
      using cd [OF jl] cd [OF \<open>m < length pal\<close>] by simp
  qed
  ultimately show ?thesis by blast
qed

subsection \<open>Quantizing with a palette of samples\<close>

lemma to_uint8_clamped_of_nat:
  assumes "n \<le> 255"
  shows "to_uint8_clamped (Num (real n)) = word_of_int (int n)"
proof -
  have r: "round_half_even (real n) = int n"
    using round_half_even_of_int [of "int n"] by simp
  consider "n = 0" | "n = 255" | "0 < n" "n < 255" using assms by linarith
  then show ?thesis
  proof cases
    case 1
    then show ?thesis by (simp add: to_uint8_clamped_def)
  next
    case 2
    then show ?thesis by (simp add: to_uint8_clamped_def)
  next
    case 3
    then have "\<not> real n \<le> 0" "\<not> 255 \<le> real n" by simp_all
    then show ?thesis
      unfolding to_uint8_clamped_def jsnum.case r by simp
  qed
qed

lemma to_uint8_clamped_of_uint8: "to_uint8_clamped (of_uint8 w) = w"
proof -
  have "unat w < 2 ^ LENGTH(8)" by (rule unsigned_less)
  then have "unat w \<le> 255" by simp
  from to_uint8_clamped_of_nat [OF this] show ?thesis
    unfolding of_uint8_def by simp
qed

lemma write_color_at_prefix:
  "length ws \<le> length rest \<Longrightarrow>
   write_color (pre @ rest) (length pre) (map of_uint8 ws) = pre @ ws @ drop (length ws) rest"
proof (induction ws arbitrary: pre rest)
  case Nil
  then show ?case by simp
next
  case (Cons w ws)
  then obtain r rest' where rest: "rest = r # rest'" by (cases rest) auto
  have "write_color (pre @ rest) (length pre) (map of_uint8 (w # ws)) =
        write_color ((pre @ [w]) @ rest') (length (pre @ [w])) (map of_uint8 ws)"
    by (simp add: rest to_uint8_clamped_of_uint8)
  also have "\<dots> = (pre @ [w]) @ ws @ drop (length ws) rest'"
    using Cons.prems rest by (intro Cons.IH) simp
  finally show ?case by (simp add: rest)
qed

lemma read_pixel_at_prefix:
  "read_pixel (pre @ px @ post) (length pre) (length px) = map of_uint8 px"
  by (rule nth_equalityI) (simp_all add: read_pixel_def nth_append)


lemma nearest_samples_index:
  assumes "pal \<noteq> []" and "\<forall>ws \<in> set pal. length ws = length px" and "length px < 2 ^ 36"
  shows "\<exists>m < length pal.
           nearestNeighbor (map of_uint8 px) (sample_palette pal) = Inr (int m) \<and>
           nearest_samples pal px = pal ! m \<and>
           (\<forall>j < length pal.
              sq_dist (values_of_samples px) (values_of_samples (pal ! m))
                \<le> sq_dist (values_of_samples px) (values_of_samples (pal ! j))) \<and>
           (\<forall>j < m.
              sq_dist (values_of_samples px) (values_of_samples (pal ! m))
                < sq_dist (values_of_samples px) (values_of_samples (pal ! j)))"
proof -
  from nearestNeighbor_samples_argmin [OF assms]
  obtain m where m: "m < length pal"
    "nearestNeighbor (sample_point px) (sample_palette pal) = Inr (int m)"
    "\<forall>j < length pal. sq_dist (values_of_samples px) (values_of_samples (pal ! m))
                     \<le> sq_dist (values_of_samples px) (values_of_samples (pal ! j))"
    "\<forall>j < m. sq_dist (values_of_samples px) (values_of_samples (pal ! m))
             < sq_dist (values_of_samples px) (values_of_samples (pal ! j))"
    by blast
  have nn: "nearestNeighbor (map of_uint8 px) (sample_palette pal) = Inr (int m)"
    using m(2) by (simp add: sample_point_def)
  then have "nearest_samples pal px = pal ! m" by (simp add: nearest_samples_def)
  with nn m show ?thesis by (intro exI [of _ m]) auto
qed

lemma nearest_samples_length:
  assumes "pal \<noteq> []" and "\<forall>ws \<in> set pal. length ws = length px" and "length px < 2 ^ 36"
  shows "length (nearest_samples pal px) = length px"
  using nearest_samples_index [OF assms] assms(2) by auto

lemma nearest_samples_idem:
  assumes "pal \<noteq> []" and "\<forall>ws \<in> set pal. length ws = length px" and "length px < 2 ^ 36"
  shows "nearest_samples pal (nearest_samples pal px) = nearest_samples pal px"
proof -
  let ?v = values_of_samples
  obtain m where m: "m < length pal" "nearest_samples pal px = pal ! m"
    using nearest_samples_index [OF assms] by blast
  let ?q = "pal ! m"
  have lq: "length ?q = length px" using m(1) assms(2) by simp
  have len': "\<forall>ws \<in> set pal. length ws = length ?q" using assms(2) lq by simp
  have small: "length ?q < 2 ^ 36" using lq assms(3) by simp
  obtain m' where m': "m' < length pal" "nearest_samples pal ?q = pal ! m'"
    "\<forall>j < length pal. sq_dist (?v ?q) (?v (pal ! m')) \<le> sq_dist (?v ?q) (?v (pal ! j))"
    using nearest_samples_index [OF assms(1) len' small] by blast
  from m'(3) m(1) have "sq_dist (?v ?q) (?v (pal ! m')) \<le> 0"
    by (metis sq_dist_self)
  moreover have "length (?v ?q) = length (?v (pal ! m'))"
    using len' m'(1) by (simp add: values_of_samples_def)
  ultimately have "?v ?q = ?v (pal ! m')"
    using sq_dist_pos [of "?v ?q" "?v (pal ! m')"] by force
  then have "pal ! m' = ?q" by (simp add: values_of_samples_inj)
  with m m' show ?thesis by simp
qed

lemma quantize_loop_samples:
  assumes pal: "pal \<noteq> []" "\<forall>ws \<in> set pal. length ws = n"
    and small: "n < 2 ^ 36"
    and todo: "\<forall>px \<in> set todo. length px = n"
    and pre: "length pre_out = length pre_src"
  shows "quantize_loop (Some (sample_palette pal)) (sample_palette pal)
           (pre_src @ concat todo) n
           (map (\<lambda>p. length pre_src + p * n) [0..<length todo])
           (pre_out @ replicate (length todo * n) 0)
         = Inr (pre_out @ concat (map (nearest_samples pal) todo))"
  using todo pre
proof (induction todo arbitrary: pre_src pre_out)
  case Nil
  then show ?case by simp
next
  case (Cons px todo)
  have lpx: "length px = n" using Cons.prems(1) by simp
  have pal': "\<forall>ws \<in> set pal. length ws = length px" using pal(2) lpx by simp
  have small': "length px < 2 ^ 36" using small lpx by simp
  obtain m where m: "m < length pal"
    "nearestNeighbor (map of_uint8 px) (sample_palette pal) = Inr (int m)"
    "nearest_samples pal px = pal ! m"
    using nearest_samples_index [OF pal(1) pal' small'] by blast
  have lm: "length (pal ! m) = n" using m(1) pal(2) by simp
  have offs: "map (\<lambda>p. length pre_src + p * n) [0..<length (px # todo)] =
        length pre_src # map (\<lambda>p. length (pre_src @ px) + p * n) [0..<length todo]"
    by (simp add: upt_conv_Cons map_Suc_upt [symmetric] lpx del: upt_Suc)
  have rd: "read_pixel (pre_src @ concat (px # todo)) (length pre_src) n = map of_uint8 px"
    using read_pixel_at_prefix [of pre_src px "concat todo"] lpx by simp
  have gt: "js_get (sample_palette pal) (int m) = Some (Some (map of_uint8 (pal ! m)))"
    using m(1) by (simp add: js_get_def sample_palette_def)
  have "write_color (pre_out @ replicate (length (px # todo) * n) 0) (length pre_out)
          (map of_uint8 (pal ! m))
        = pre_out @ pal ! m @ drop (length (pal ! m)) (replicate (length (px # todo) * n) 0)"
    by (rule write_color_at_prefix) (simp add: lm)
  also have "\<dots> = (pre_out @ pal ! m) @ replicate (length todo * n) 0"
    by (simp add: lm)
  finally have wr: "write_color (pre_out @ replicate (length (px # todo) * n) 0) (length pre_src)
          (map of_uint8 (pal ! m)) = (pre_out @ pal ! m) @ replicate (length todo * n) 0"
    using Cons.prems(2) by simp
  have "quantize_loop (Some (sample_palette pal)) (sample_palette pal)
           (pre_src @ concat (px # todo)) n
           (map (\<lambda>p. length pre_src + p * n) [0..<length (px # todo)])
           (pre_out @ replicate (length (px # todo) * n) 0)
        = quantize_loop (Some (sample_palette pal)) (sample_palette pal)
           ((pre_src @ px) @ concat todo) n
           (map (\<lambda>p. length (pre_src @ px) + p * n) [0..<length todo])
           ((pre_out @ pal ! m) @ replicate (length todo * n) 0)"
    unfolding offs quantize_loop.simps rd m(2) using gt wr by simp
  also have "\<dots> = Inr ((pre_out @ pal ! m) @ concat (map (nearest_samples pal) todo))"
    using Cons.prems lm lpx by (intro Cons.IH) auto
  finally show ?case by (simp add: m(3))
qed

lemma chunks_exist:
  "length xs = n * N \<Longrightarrow> \<exists>pxs. xs = concat pxs \<and> length pxs = N \<and> (\<forall>px \<in> set pxs. length px = n)"
proof (induction N arbitrary: xs)
  case 0
  then show ?case by simp
next
  case (Suc N)
  then have "length (drop n xs) = n * N" by simp
  from Suc.IH [OF this] obtain pxs where pxs: "drop n xs = concat pxs" "length pxs = N"
    "\<forall>px \<in> set pxs. length px = n" by blast
  have "xs = concat (take n xs # pxs)" using pxs(1) by (metis append_take_drop_id concat.simps(2))
  moreover have "length (take n xs) = n" using Suc.prems by simp
  ultimately show ?case using pxs(2,3)
    by (intro exI [of _ "take n xs # pxs"]) auto
qed

lemma quantize_samples:
  assumes pal: "pal \<noteq> []" "\<forall>ws \<in> set pal. length ws = 4"
    and img: "data img = concat pxs" "\<forall>px \<in> set pxs. length px = 4"
      "width img * height img = length pxs"
  shows "quantize (Some (sample_palette pal)) img (sample_palette pal)
         = Inr (concat (map (nearest_samples pal) pxs))"
proof (cases "pxs = []")
  case True
  with img show ?thesis by (simp add: quantize_def pixel_offsets_def)
next
  case False
  let ?N = "length pxs"
  have N: "0 < ?N" using False by simp
  have len: "length (concat pxs) = ?N * 4" using img(2)
    by (induction pxs) simp_all
  then have nc: "length (data img) div (width img * height img) = 4"
    using img(1,3) N by simp
  have offs: "pixel_offsets (length (data img)) 4 = map (\<lambda>p. length ([]::8 word list) + p * 4) [0..<?N]"
    using len img(1) by (simp add: pixel_offsets_def)
  have out0: "replicate (length (data img)) (0::8 word) = [] @ replicate (?N * 4) 0"
    using len img(1) by simp
  have src: "data img = [] @ concat pxs" using img(1) by simp
  have "quantize (Some (sample_palette pal)) img (sample_palette pal)
        = quantize_loop (Some (sample_palette pal)) (sample_palette pal) ([] @ concat pxs) 4
            (map (\<lambda>p. length ([]::8 word list) + p * 4) [0..<?N]) ([] @ replicate (?N * 4) 0)"
    unfolding quantize_def Let_def nc offs out0 src [symmetric] ..
  also have "\<dots> = Inr ([] @ concat (map (nearest_samples pal) pxs))"
    by (rule quantize_loop_samples [OF pal _ img(2)]) simp_all
  finally show ?thesis by simp
qed

subsection \<open>Evaluating quantize\<close>

lemmas quantize_eval =
  quantize_def pixel_offsets_def read_pixel_def nearestNeighbor_def js_get_def
  to_uint8_clamped_def of_uint8_def round_half_even_def round64_exact Let_def

subsection \<open>The generator of a call in the store\<close>










subsection \<open>Order of the mean\<close>


section \<open>The claims\<close>

text \<open>
  C1: \<^verbatim>\<open>quantize\<close> writes the channel values of the palette entry selected in
  \<^verbatim>\<open>colors\<close>, so that its output depends on the raster and on \<^verbatim>\<open>colors\<close> only. The
  code selects the index in \<^verbatim>\<open>colors\<close> but reads the entry from \<^verbatim>\<open>centroids\<close>, a
  name of the enclosing scope. For the one-pixel image \<open>(0, 0, 0, 255)\<close> and the palette
  \<open>[(1, 2, 3, 4)]\<close> the output is \<open>(9, 9, 9, 9)\<close> when the enclosing scope binds
  \<^verbatim>\<open>centroids\<close> to \<open>[(9, 9, 9, 9)]\<close>, and a ReferenceError when it binds nothing.
\<close>

theorem quantize_reads_enclosing_scope:
  "quantize (Some [Some [Num 9, Num 9, Num 9, Num 9]])
     \<lparr>width = 1, height = 1, data = [0, 0, 0, 255]\<rparr>
     [Some [Num 1, Num 2, Num 3, Num 4]] = Inr [9, 9, 9, 9] \<and>
   quantize None
     \<lparr>width = 1, height = 1, data = [0, 0, 0, 255]\<rparr>
     [Some [Num 1, Num 2, Num 3, Num 4]] = Inl ReferenceError"
  by (simp add: quantize_eval)

text \<open>
  C2 (as stated): for every non-empty dataset and \<open>k \<ge> 1\<close>, \<^verbatim>\<open>kMeans\<close> terminates, by a
  maximum-iteration bound. It fails on the alternating dataset of one-channel points 0
  and 255 with \<open>k = 3\<close>: the first two centroids stay 0 and 255, the third cluster is
  empty in every round, and the point drawn for it alternates with the parity of the
  generator's state, so it never equals the previous one. The call does not return.
\<close>

theorem kMeans_diverges_on_alternating_dataset:
  "kMeans (parity_dataset [Num 0] [Num 255]) (Some 3) = None"
  using parity_diverges [of "[0]" "[255]"] by (simp add: sample_point_def of_uint8_def)

text \<open>
  C2 (amended): \<^verbatim>\<open>kMeans\<close> has no iteration bound. A palette that it returns is the
  outcome of a round in which the convergence test succeeded: every centroid computed in
  that round is exactly equal to the one it replaces.
\<close>

theorem kMeans_returns_only_on_convergence:
  assumes "kMeans dataset (Some k) = Some (Inr palette)"
  shows "\<exists>centroids seed seed'.
           kMeans_round dataset k centroids seed = Inr (palette, True, seed') \<and>
           (\<forall>i < length palette. isArrayEqual (palette ! i) (centroids ! i) = Inr True)"
proof -
  let ?R = "\<lambda>r :: js_error + palette. \<forall>pal. r = Inr pal \<longrightarrow>
      (\<exists>centroids seed seed'.
           kMeans_round dataset k centroids seed = Inr (pal, True, seed') \<and>
           (\<forall>i < length pal. isArrayEqual (pal ! i) (centroids ! i) = Inr True))"
  obtain cs0 s0 where init: "init_centroids (nat k) dataset 0 = (cs0, s0)"
    by (cases "init_centroids (nat k) dataset 0") auto
  have ret: "kMeans_while dataset k cs0 s0 = Some (Inr palette)"
    using assms init by (simp add: kMeans_def)
  have step: "case kMeans_round dataset k cs s of
        Inl e \<Rightarrow> ?R (Inl e)
      | Inr (cs', conv, s') \<Rightarrow> if conv then ?R (Inr cs') else True" for cs s
  proof (cases "kMeans_round dataset k cs s")
    case (Inl e)
    then show ?thesis by simp
  next
    case (Inr t)
    obtain cs' conv s' where t: "t = (cs', conv, s')" by (cases t) auto
    show ?thesis
    proof (cases conv)
      case False
      with Inr t show ?thesis by simp
    next
      case True
      have round: "kMeans_round dataset k cs s = Inr (cs', True, s')"
        using Inr t True by simp
      then obtain clusters where
        "update_loop dataset clusters cs True s = Inr (cs', True, s')"
        by (auto simp: kMeans_round_def split: if_splits sum.splits)
      from update_loop_converged [OF this]
      have "\<forall>i < length cs'. isArrayEqual (cs' ! i) (cs ! i) = Inr True" by simp
      with round have "?R (Inr cs')" by blast
      with Inr t True show ?thesis by simp
    qed
  qed
  have "?R (Inr palette)"
  proof (rule kMeans_while_rule [where I = "\<lambda>cs s. True" and R = ?R, OF ret])
    show True ..
  next
    fix cs s
    show "case kMeans_round dataset k cs s of
        Inl e \<Rightarrow> ?R (Inl e)
      | Inr (cs', conv, s') \<Rightarrow> if conv then ?R (Inr cs') else True"
      by (rule step)
  qed
  then show ?thesis by simp
qed

theorem kMeans_returns_only_on_convergence_witness:
  "kMeans [[Num 0]] (Some 2) = Some (Inr [Some [Num 0], Some [Num 0]]) \<and>
   (\<exists>centroids seed seed'.
      kMeans_round [[Num 0]] 2 centroids seed = Inr ([Some [Num 0], Some [Num 0]], True, seed') \<and>
      (\<forall>i < length [Some [Num 0], Some [Num (0::real)]].
         isArrayEqual ([Some [Num 0], Some [Num 0]] ! i) (centroids ! i) = Inr True))"
  using kMeans_returns_only_on_convergence [OF kMeans_one_point_two] kMeans_one_point_two
  by blast

text \<open>
  C3 (as stated): for a non-empty dataset \<open>D\<close> and \<open>k > |D|\<close> the returned palette has
  \<open>|D|\<close> centroids. It fails for the dataset of the single point 0 and \<open>k = 2\<close>: two
  centroids are returned.
\<close>

theorem kMeans_two_centroids_from_one_point:
  "kMeans [[Num 0]] (Some 2) = Some (Inr [Some [Num 0], Some [Num 0]]) \<and>
   length [Some [Num 0], Some [Num 0]] \<noteq> length [[Num 0]]"
  using kMeans_one_point_two by simp

text \<open>
  C3 (amended): \<^verbatim>\<open>kMeans\<close> does not clamp \<open>k\<close>. For a non-empty dataset \<open>D\<close> and
  \<open>k > |D|\<close>, a palette that the call returns has exactly \<open>k\<close> centroids.
\<close>

theorem kMeans_does_not_clamp:
  assumes "dataset \<noteq> []" and "int (length dataset) < k"
    and "kMeans dataset (Some k) = Some (Inr palette)"
  shows "int (length palette) = k"
  using kMeans_length [OF assms(3)] assms(2) by simp

theorem kMeans_does_not_clamp_witness:
  "[[Num 0]] \<noteq> [] \<and> int (length [[Num 0]]) < 2 \<and>
   kMeans [[Num 0]] (Some 2) = Some (Inr [Some [Num 0], Some [Num 0]]) \<and>
   int (length [Some [Num 0], Some [Num (0::real)]]) = 2"
  using kMeans_does_not_clamp [OF _ _ kMeans_one_point_two] kMeans_one_point_two
  by simp

text \<open>
  C4 (as stated): on an empty dataset, for every \<open>k\<close>, \<^verbatim>\<open>kMeans\<close> fails with
  InvalidInput and produces no palette. It fails for \<open>k = 0\<close>: the call returns the
  empty palette.
\<close>

theorem kMeans_empty_dataset_zero_returns:
  "kMeans [] (Some 0) = Some (Inr [])"
  by (simp add: kMeans_def kMeans_while.simps kMeans_round_def)

text \<open>
  C4 (amended): \<^verbatim>\<open>kMeans\<close> does not check its input and has no InvalidInput error.
  On an empty dataset it throws a TypeError for \<open>k \<ge> 1\<close> and returns the empty palette
  for \<open>k = 0\<close>; for negative \<open>k\<close> it throws a RangeError on every dataset; on a
  non-empty dataset with \<open>k = 0\<close> it throws a TypeError.
\<close>

theorem kMeans_invalid_input_outcomes:
  "(1 \<le> k \<longrightarrow> kMeans [] (Some k) = Some (Inl TypeError)) \<and>
   kMeans [] (Some 0) = Some (Inr []) \<and>
   (j < 0 \<longrightarrow> kMeans dataset (Some j) = Some (Inl RangeError)) \<and>
   kMeans (point # dataset) (Some 0) = Some (Inl TypeError)"
  using kMeans_empty_positive [of k] kMeans_negative [of j dataset]
    kMeans_zero_nonempty [of point dataset]
  by (simp add: kMeans_def kMeans_while.simps kMeans_round_def)

theorem kMeans_invalid_input_outcomes_witness:
  "(1::int) \<le> 1 \<and> (- 1::int) < 0 \<and>
   kMeans [] (Some 1) = Some (Inl TypeError) \<and>
   kMeans [] (Some 0) = Some (Inr []) \<and>
   kMeans [] (Some (- 1)) = Some (Inl RangeError) \<and>
   kMeans [[Num 7]] (Some 0) = Some (Inl TypeError)"
  using kMeans_invalid_input_outcomes [where k = 1 and j = "- 1" and dataset = "[]" and point = "[Num 7]"]
  by simp

text \<open>
  C5 (as stated): for a dataset \<open>D\<close> whose pixels share the channel count \<open>C\<close> and
  \<open>1 \<le> k \<le> |D|\<close>, \<^verbatim>\<open>kMeans(D, k)\<close> returns exactly \<open>k\<close> centroids. It fails on the
  alternating dataset of the four-channel points black and white with \<open>k = 3\<close>: the call
  does not return.
\<close>

theorem kMeans_returns_nothing_on_black_and_white:
  "3 \<le> length (parity_dataset [Num 0, Num 0, Num 0, Num 255] [Num 255, Num 255, Num 255, Num 255]) \<and>
   kMeans (parity_dataset [Num 0, Num 0, Num 0, Num 255] [Num 255, Num 255, Num 255, Num 255])
     (Some 3) = None"
  using parity_diverges [of "[0, 0, 0, 255]" "[255, 255, 255, 255]"]
  by (simp add: parity_dataset_length parity_size_def sample_point_def of_uint8_def)

text \<open>
  C5 (amended): for a dataset \<open>D\<close> whose points have \<open>C\<close> channels each and
  \<open>1 \<le> k \<le> |D|\<close>, a palette that the call \<^verbatim>\<open>kMeans(D, k)\<close> returns has exactly \<open>k\<close>
  centroids, each with \<open>C\<close> channels.
\<close>

theorem kMeans_returns_k_centroids:
  assumes "\<forall>p \<in> set dataset. length p = C"
    and "1 \<le> k" and "k \<le> int (length dataset)"
    and "kMeans dataset (Some k) = Some (Inr palette)"
  shows "int (length palette) = k \<and> has_channels C palette"
proof -
  have ne: "dataset \<noteq> []" using assms(2,3) by auto
  from kMeans_shape [OF ne assms(1,4)] assms(2) show ?thesis by simp
qed

theorem kMeans_returns_k_centroids_witness:
  "list_all (\<lambda>p. length p = 4)
      [[Num 0, Num 0, Num 0, Num 255], [Num 10, Num 10, Num 10, Num 255],
       [Num 250, Num 250, Num 250, Num 255], [Num 254, Num 254, Num 254, Num 255]] \<and>
   (1::int) \<le> 2 \<and>
   2 \<le> int (length [[Num 0, Num 0, Num 0, Num 255], [Num 10, Num 10, Num 10, Num 255],
                 [Num 250, Num 250, Num 250, Num 255], [Num 254, Num 254, Num 254, Num 255]]) \<and>
   kMeans [[Num 0, Num 0, Num 0, Num 255], [Num 10, Num 10, Num 10, Num 255],
           [Num 250, Num 250, Num 250, Num 255], [Num 254, Num 254, Num 254, Num 255]] (Some 2)
     = Some (Inr [Some [Num 5, Num 5, Num 5, Num 255],
                  Some [Num 252, Num 252, Num 252, Num 255]]) \<and>
   int (length [Some [Num 5, Num 5, Num 5, Num 255],
                Some [Num 252, Num 252, Num 252, Num (255::real)]]) = 2 \<and>
   has_channels 4 [Some [Num 5, Num 5, Num 5, Num 255],
                   Some [Num 252, Num 252, Num 252, Num 255]]"
proof -
  have h: "\<forall>p \<in> set [[Num 0, Num 0, Num 0, Num 255], [Num 10, Num 10, Num 10, Num 255],
                 [Num 250, Num 250, Num 250, Num 255], [Num 254, Num 254, Num 254, Num 255]].
      length p = 4" by simp
  from kMeans_returns_k_centroids [OF h _ _ kMeans_four_points_two] h kMeans_four_points_two
  show ?thesis by (simp add: list_all_iff)
qed

text \<open>
  C6 (as stated): for every query point and every non-empty list of candidates with its
  channel count, \<^verbatim>\<open>nearestNeighbor\<close> returns the smallest index whose candidate is at
  minimal squared Euclidean distance. It fails for the query \<open>(0, 0)\<close> and the candidates
  \<open>(2 ^ 27, 1)\<close> and \<open>(2 ^ 27, 0)\<close>: the second candidate is nearer, but the sum
  \<open>2 ^ 54 + 1\<close> of the first is rounded to \<open>2 ^ 54\<close>, the distance computed for the
  second, and index 0 is returned.
\<close>

theorem nearestNeighbor_returns_farther_candidate:
  "nearestNeighbor [Num 0, Num 0] [Some [Num 134217728, Num 1], Some [Num 134217728, Num 0]]
     = Inr 0 \<and>
   sq_dist [0, 0] [134217728, 0] < sq_dist [0, 0] [134217728, 1]"
  using nearestNeighbor_rounded_tie by (simp add: sq_dist_def)

text \<open>
  C6 (amended): for every query point and every list of candidates,
  \<^verbatim>\<open>nearestNeighbor\<close> returns the smallest index whose computed distance (the binary64
  value of \<^verbatim>\<open>dist\<close> after the inner loop) is below \<^verbatim>\<open>Infinity\<close> and minimal: no
  candidate has a smaller computed distance, and no candidate before it has one as
  small. It returns \<open>-1\<close> when no computed distance is below \<^verbatim>\<open>Infinity\<close>. For a query
  and a non-empty list of candidates of 8-bit samples with the same number of channels
  (fewer than \<open>2 ^ 36\<close>), the computed distance is the squared Euclidean distance, and
  the index returned is the smallest one at minimal squared Euclidean distance.
\<close>

theorem nearestNeighbor_lowest_index_of_minimum:
  "((nearestNeighbor p (map Some cs) = Inr (- 1) \<and>
       (\<forall>j < length cs. \<not> js_less (computed_dist p (cs ! j)) PInf))
    \<or> (\<exists>m < length cs.
          nearestNeighbor p (map Some cs) = Inr (int m) \<and>
          js_less (computed_dist p (cs ! m)) PInf \<and>
          (\<forall>j < length cs. \<not> js_less (computed_dist p (cs ! j)) (computed_dist p (cs ! m))) \<and>
          (\<forall>j < m. \<not> js_le (computed_dist p (cs ! j)) (computed_dist p (cs ! m))))) \<and>
   (pal \<noteq> [] \<and> (\<forall>c \<in> set pal. length c = length px) \<and> length px < 2 ^ 36 \<longrightarrow>
      (\<exists>m < length pal.
         nearestNeighbor (sample_point px) (sample_palette pal) = Inr (int m) \<and>
         (\<forall>j < length pal. sq_dist (values_of_samples px) (values_of_samples (pal ! m))
                         \<le> sq_dist (values_of_samples px) (values_of_samples (pal ! j))) \<and>
         (\<forall>j < m. sq_dist (values_of_samples px) (values_of_samples (pal ! m))
                 < sq_dist (values_of_samples px) (values_of_samples (pal ! j)))))"
proof (intro conjI impI)
  show "(nearestNeighbor p (map Some cs) = Inr (- 1) \<and>
       (\<forall>j < length cs. \<not> js_less (computed_dist p (cs ! j)) PInf))
    \<or> (\<exists>m < length cs.
          nearestNeighbor p (map Some cs) = Inr (int m) \<and>
          js_less (computed_dist p (cs ! m)) PInf \<and>
          (\<forall>j < length cs. \<not> js_less (computed_dist p (cs ! j)) (computed_dist p (cs ! m))) \<and>
          (\<forall>j < m. \<not> js_le (computed_dist p (cs ! j)) (computed_dist p (cs ! m))))"
    using nearestNeighbor_argmin [of p cs] by blast
next
  assume "pal \<noteq> [] \<and> (\<forall>c \<in> set pal. length c = length px) \<and> length px < 2 ^ 36"
  then show "\<exists>m < length pal.
         nearestNeighbor (sample_point px) (sample_palette pal) = Inr (int m) \<and>
         (\<forall>j < length pal. sq_dist (values_of_samples px) (values_of_samples (pal ! m))
                         \<le> sq_dist (values_of_samples px) (values_of_samples (pal ! j))) \<and>
         (\<forall>j < m. sq_dist (values_of_samples px) (values_of_samples (pal ! m))
                 < sq_dist (values_of_samples px) (values_of_samples (pal ! j)))"
    using nearestNeighbor_samples_argmin [of pal px] by blast
qed

theorem nearestNeighbor_lowest_index_of_minimum_witness:
  "nearestNeighbor [Num 0] (map Some [[Num 3], [Num (- 1)], [Num 1], [Num 5]]) = Inr 1 \<and>
   js_less (computed_dist [Num 0] [Num (- 1)]) PInf \<and>
   [[3, 0], [1, 0], [0, 1], [5, 5 :: 8 word]] \<noteq> [] \<and>
   list_all (\<lambda>c. length c = length [0, 0 :: 8 word]) [[3, 0], [1, 0], [0, 1], [5, 5 :: 8 word]] \<and>
   length [0, 0 :: 8 word] < 2 ^ 36 \<and>
   nearestNeighbor (sample_point [0, 0]) (sample_palette [[3, 0], [1, 0], [0, 1], [5, 5]]) = Inr 1 \<and>
   (\<exists>m < length [[3, 0], [1, 0], [0, 1], [5, 5 :: 8 word]].
      nearestNeighbor (sample_point [0, 0]) (sample_palette [[3, 0], [1, 0], [0, 1], [5, 5]])
        = Inr (int m) \<and>
      (\<forall>j < length [[3, 0], [1, 0], [0, 1], [5, 5 :: 8 word]].
         sq_dist (values_of_samples [0, 0])
           (values_of_samples ([[3, 0], [1, 0], [0, 1], [5, 5]] ! m))
         \<le> sq_dist (values_of_samples [0, 0])
              (values_of_samples ([[3, 0], [1, 0], [0, 1], [5, 5]] ! j))) \<and>
      (\<forall>j < m.
         sq_dist (values_of_samples [0, 0])
           (values_of_samples ([[3, 0], [1, 0], [0, 1], [5, 5]] ! m))
         < sq_dist (values_of_samples [0, 0])
             (values_of_samples ([[3, 0], [1, 0], [0, 1], [5, 5]] ! j))))"
proof -
  have e1: "nearestNeighbor [Num 0] (map Some [[Num 3], [Num (- 1)], [Num 1], [Num 5]]) = Inr 1"
    by (simp add: nearestNeighbor_def round64_exact)
  have e2: "js_less (computed_dist [Num 0] [Num (- 1)]) PInf"
    by (simp add: computed_dist_def round64_exact)
  have e3: "nearestNeighbor (sample_point [0, 0]) (sample_palette [[3, 0], [1, 0], [0, 1], [5, 5]])
      = Inr 1"
    by (simp add: nearestNeighbor_def sample_point_def sample_palette_def of_uint8_def
        round64_exact)
  have h: "[[3, 0], [1, 0], [0, 1], [5, 5 :: 8 word]] \<noteq> [] \<and>
      (\<forall>c \<in> set [[3, 0], [1, 0], [0, 1], [5, 5 :: 8 word]]. length c = length [0, 0 :: 8 word]) \<and>
      length [0, 0 :: 8 word] < 2 ^ 36"
    by simp
  from nearestNeighbor_lowest_index_of_minimum
    [of "[Num 0]" "[[Num 3], [Num (- 1)], [Num 1], [Num 5]]"
        "[[3, 0], [1, 0], [0, 1], [5, 5]]" "[0, 0]"] h
  have "\<exists>m < length [[3, 0], [1, 0], [0, 1], [5, 5 :: 8 word]].
      nearestNeighbor (sample_point [0, 0]) (sample_palette [[3, 0], [1, 0], [0, 1], [5, 5]])
        = Inr (int m) \<and>
      (\<forall>j < length [[3, 0], [1, 0], [0, 1], [5, 5 :: 8 word]].
         sq_dist (values_of_samples [0, 0])
           (values_of_samples ([[3, 0], [1, 0], [0, 1], [5, 5]] ! m))
         \<le> sq_dist (values_of_samples [0, 0])
              (values_of_samples ([[3, 0], [1, 0], [0, 1], [5, 5]] ! j))) \<and>
      (\<forall>j < m.
         sq_dist (values_of_samples [0, 0])
           (values_of_samples ([[3, 0], [1, 0], [0, 1], [5, 5]] ! m))
         < sq_dist (values_of_samples [0, 0])
             (values_of_samples ([[3, 0], [1, 0], [0, 1], [5, 5]] ! j)))"
    by blast
  with e1 e2 e3 h show ?thesis by (simp add: list_all_iff)
qed

text \<open>
  C7 (as stated): for every width, height and pixel budget \<open>P > 0\<close> the dimensions
  returned satisfy \<open>w' * h' \<le> P\<close>. It fails for width 1, height 1 and the budget
  \<open>P = 2 ^ 54 + 2 ^ 28 = 18014398777917440\<close>, a binary64 number: \<open>P + 1\<close> is the square
  of \<open>2 ^ 27 + 1\<close>, the square root of \<open>P\<close> is less than \<open>2 ^ -28\<close> below
  \<open>2 ^ 27 + 1\<close> and rounds to it, and both dimensions are \<open>2 ^ 27 + 1\<close>.
\<close>

theorem rescaleDimensions_exceeds_budget:
  "rescaleDimensions 1 1 18014398777917440 = Some (134217729, 134217729) \<and>
   (18014398777917440 :: int) < 134217729 * 134217729"
  using rescaleDimensions_huge by simp

text \<open>
  C7 (amended): for integers \<open>w\<close> and \<open>h\<close> from 1 to below \<open>2 ^ 53\<close> and an integer
  budget \<open>P\<close> from 1 to \<open>2 ^ 50\<close>, \<^verbatim>\<open>rescaleDimensions(w, h, P)\<close> returns
  \<open>w' = floor(aspectRatio * scale)\<close> and \<open>h' = floor(scale)\<close>, with
  \<open>aspectRatio = w / h\<close> and \<open>scale = sqrt(P / aspectRatio)\<close> computed in binary64, and
  \<open>w' * h' \<le> P\<close>; and \<^verbatim>\<open>rescaleDimensions(100, 100, 10000)\<close> is \<open>(100, 100)\<close>.
\<close>

theorem rescaleDimensions_within_budget:
  fixes w h P :: nat
  assumes "0 < w" "w < 2 ^ 53" and "0 < h" "h < 2 ^ 53" and "0 < P" "P \<le> 2 ^ 50"
  shows "(\<exists>w' h'. rescaleDimensions (real w) (real h) (real P) = Some (w', h') \<and>
           w' = \<lfloor>binary64 (binary64 (real w / real h) *
                   binary64 (sqrt (binary64 (real P / binary64 (real w / real h)))))\<rfloor> \<and>
           h' = \<lfloor>binary64 (sqrt (binary64 (real P / binary64 (real w / real h))))\<rfloor> \<and>
           0 \<le> w' \<and> 0 \<le> h' \<and> w' * h' \<le> int P) \<and>
         rescaleDimensions 100 100 10000 = Some (100, 100)"
proof -
  define a where "a = binary64 (real w / real h)"
  define s where "s = binary64 (sqrt (binary64 (real P / a)))"
  define t where "t = binary64 (a * s)"
  have P: "0 < real P" "real P \<le> 2 ^ 50"
    using assms(5,6) by (simp_all add: of_nat_le_iff [of P "2 ^ 50", where ?'a = real, symmetric] del: of_nat_le_iff)
  have w: "0 < real w" and h: "0 < real h" using assms(1,3) by simp_all
  from rescale_product_bound [OF w h P]
  have pos: "0 < s" "0 < t" and lt: "t * s < real P + 1"
    unfolding a_def s_def t_def by simp_all
  have eq: "rescaleDimensions (real w) (real h) (real P) = Some (\<lfloor>t\<rfloor>, \<lfloor>s\<rfloor>)"
    unfolding t_def s_def a_def by (rule rescaleDimensions_positive [OF w h P(1)])
  have ft: "0 \<le> \<lfloor>t\<rfloor>" and fs: "0 \<le> \<lfloor>s\<rfloor>" using pos by simp_all
  have "real_of_int (\<lfloor>t\<rfloor> * \<lfloor>s\<rfloor>) = of_int \<lfloor>t\<rfloor> * of_int \<lfloor>s\<rfloor>" by simp
  also have "\<dots> \<le> t * s"
    using ft fs pos by (intro mult_mono) simp_all
  finally have "real_of_int (\<lfloor>t\<rfloor> * \<lfloor>s\<rfloor>) < real_of_int (int P + 1)" using lt by simp
  then have "\<lfloor>t\<rfloor> * \<lfloor>s\<rfloor> < int P + 1" by (simp only: of_int_less_iff)
  then have "\<lfloor>t\<rfloor> * \<lfloor>s\<rfloor> \<le> int P" by simp
  with eq ft fs rescaleDimensions_100 show ?thesis unfolding t_def s_def a_def by simp
qed

theorem rescaleDimensions_within_budget_witness:
  "(0::nat) < 100 \<and> (100::nat) < 2 ^ 53 \<and> (0::nat) < 10000 \<and> (10000::nat) \<le> 2 ^ 50 \<and>
   rescaleDimensions (real 100) (real 100) (real 10000) = Some (100, 100) \<and>
   (\<exists>w' h'. rescaleDimensions (real 100) (real 100) (real 10000) = Some (w', h') \<and>
      0 \<le> w' \<and> 0 \<le> h' \<and> w' * h' \<le> int 10000)"
proof -
  have h: "(0::nat) < 100" "(100::nat) < 2 ^ 53" "(0::nat) < 10000" "(10000::nat) \<le> 2 ^ 50"
    by simp_all
  from rescaleDimensions_within_budget [OF h(1,2) h(1,2) h(3,4)] h rescaleDimensions_100
  show ?thesis by simp
qed

text \<open>
  C8 (as stated): for every image and every non-empty palette, quantizing the quantized
  image again changes nothing. It fails for the one-pixel image \<open>(2, 2, 0, 255)\<close> and the
  palette \<open>[(1.4375, 1.4375, 0, 255), (0.4375, 1, 0, 255)]\<close>, also bound to
  \<^verbatim>\<open>centroids\<close>: the pixel is nearest to the first entry and is stored, rounded, as
  \<open>(1, 1, 0, 255)\<close>, which is nearest to the second entry and becomes \<open>(0, 1, 0, 255)\<close> in
  the second pass.
\<close>

theorem quantize_twice_differs:
  "quantize
     (Some [Some [Num (23 / 16), Num (23 / 16), Num 0, Num 255], Some [Num (7 / 16), Num 1, Num 0, Num 255]])
     \<lparr>width = 1, height = 1, data = [2, 2, 0, 255]\<rparr>
     [Some [Num (23 / 16), Num (23 / 16), Num 0, Num 255], Some [Num (7 / 16), Num 1, Num 0, Num 255]]
     = Inr [1, 1, 0, 255] \<and>
   quantize_twice
     (Some [Some [Num (23 / 16), Num (23 / 16), Num 0, Num 255], Some [Num (7 / 16), Num 1, Num 0, Num 255]])
     \<lparr>width = 1, height = 1, data = [2, 2, 0, 255]\<rparr>
     [Some [Num (23 / 16), Num (23 / 16), Num 0, Num 255], Some [Num (7 / 16), Num 1, Num 0, Num 255]]
     = Inr [0, 1, 0, 255]"
  by (simp add: quantize_twice_def quantize_eval)

text \<open>
  C8 (amended): for the image of a canvas and a non-empty palette whose entries have four
  channels with values in the sample domain (integers from 0 to 255), the palette being
  also the one that \<^verbatim>\<open>quantize\<close> reads from the enclosing scope, quantizing the
  quantized image again changes nothing.
\<close>

theorem quantize_idempotent_on_sample_palette:
  assumes "canvas_image img" and "pal \<noteq> []" and "\<forall>ws \<in> set pal. length ws = 4"
  shows "quantize_twice (Some (sample_palette pal)) img (sample_palette pal)
         = quantize (Some (sample_palette pal)) img (sample_palette pal)"
proof -
  let ?ns = "nearest_samples pal"
  obtain pxs where pxs: "data img = concat pxs" "length pxs = width img * height img"
    "\<forall>px \<in> set pxs. length px = 4"
    using chunks_exist [of "data img" 4 "width img * height img"] assms(1)
    by (auto simp: canvas_image_def)
  have first: "quantize (Some (sample_palette pal)) img (sample_palette pal)
      = Inr (concat (map ?ns pxs))"
    using pxs by (intro quantize_samples [OF assms(2,3)]) simp_all
  let ?img = "img\<lparr>data := concat (map ?ns pxs)\<rparr>"
  have len: "\<forall>px \<in> set (map ?ns pxs). length px = 4"
    using pxs(3) assms(3) nearest_samples_length [OF assms(2), of _ ] by auto
  have "quantize (Some (sample_palette pal)) ?img (sample_palette pal)
      = Inr (concat (map ?ns (map ?ns pxs)))"
    using pxs(2) len by (intro quantize_samples [OF assms(2,3)]) simp_all
  also have "map ?ns (map ?ns pxs) = map ?ns pxs"
    using pxs(3) assms(3) nearest_samples_idem [OF assms(2)] by auto
  finally show ?thesis by (simp add: quantize_twice_def first)
qed

theorem quantize_idempotent_on_sample_palette_witness:
  "canvas_image \<lparr>width = 1, height = 1, data = [2, 2, 0, 255]\<rparr> \<and>
   [[1, 1, 0, 255], [0, 1, 0, 255 :: 8 word]] \<noteq> [] \<and>
   list_all (\<lambda>ws. length ws = 4) [[1, 1, 0, 255], [0, 1, 0, 255 :: 8 word]] \<and>
   quantize (Some (sample_palette [[1, 1, 0, 255], [0, 1, 0, 255]]))
     \<lparr>width = 1, height = 1, data = [2, 2, 0, 255]\<rparr>
     (sample_palette [[1, 1, 0, 255], [0, 1, 0, 255]]) = Inr [1, 1, 0, 255] \<and>
   quantize_twice (Some (sample_palette [[1, 1, 0, 255], [0, 1, 0, 255]]))
     \<lparr>width = 1, height = 1, data = [2, 2, 0, 255]\<rparr>
     (sample_palette [[1, 1, 0, 255], [0, 1, 0, 255]]) = Inr [1, 1, 0, 255]"
proof -
  have h1: "canvas_image \<lparr>width = 1, height = 1, data = [2, 2, 0, 255]\<rparr>"
    by (simp add: canvas_image_def)
  have h2: "[[1, 1, 0, 255], [0, 1, 0, 255 :: 8 word]] \<noteq> []" by simp
  have h3: "\<forall>ws \<in> set [[1, 1, 0, 255], [0, 1, 0, 255 :: 8 word]]. length ws = 4" by simp
  have e: "quantize (Some (sample_palette [[1, 1, 0, 255], [0, 1, 0, 255]]))
     \<lparr>width = 1, height = 1, data = [2, 2, 0, 255]\<rparr>
     (sample_palette [[1, 1, 0, 255], [0, 1, 0, 255]]) = Inr [1, 1, 0, 255]"
    by (simp add: quantize_eval sample_palette_def)
  from quantize_idempotent_on_sample_palette [OF h1 h2 h3] h1 e show ?thesis by simp
qed



text \<open>
  C10: with an empty list of candidates \<^verbatim>\<open>nearestNeighbor\<close> returns \<open>-1\<close>, neither an
  index nor an error. An array read at \<open>-1\<close> is \<^verbatim>\<open>undefined\<close>; \<^verbatim>\<open>kMeans\<close> with no
  centroids (\<open>k = 0\<close>) reads \<^verbatim>\<open>clusters[-1]\<close> for the first point of the dataset and
  throws a TypeError at \<^verbatim>\<open>push\<close>.
\<close>

theorem nearestNeighbor_empty_returns_minus_one:
  "nearestNeighbor point [] = Inr (- 1) \<and>
   js_get (clusters :: point list list) (- 1) = None \<and>
   kMeans (point # dataset) (Some 0) = Some (Inl TypeError)"
  by (simp add: nearestNeighbor_def js_get_def kMeans_zero_nonempty)

theorem nearestNeighbor_empty_returns_minus_one_witness:
  "nearestNeighbor [Num 7] [] = Inr (- 1) \<and>
   js_get [[[Num 7]], []] (- 1) = None \<and>
   kMeans [[Num 7], [Num 9]] (Some 0) = Some (Inl TypeError)"
  using nearestNeighbor_empty_returns_minus_one [of "[Num 7]" "[[[Num 7]], []]" "[[Num 9]]"]
  by simp

end
